theory Spec2Isabelle
  imports Complex_Main "HOL-Library.AList"
begin

section \<open>Shadow DOM builder: data model\<close>

text \<open>
  The development embeds \<^verbatim>\<open>src/tools/shadow_builder.py\<close>.  Coordinates are JSON
  numbers; they are modelled as mathematical reals, so rounding of binary floating point
  and the special values NaN and infinity are outside the model.  Page numbers and
  sequence numbers are Python integers (\<^typ>\<open>int\<close>).
\<close>

subsection \<open>Constants\<close>

definition A4_WIDTH_PT :: real where
  "A4_WIDTH_PT = 595"

definition A4_HEIGHT_PT :: real where
  "A4_HEIGHT_PT = 842"

definition DEFAULT_RECT_WIDTH :: real where
  "DEFAULT_RECT_WIDTH = 400"

subsection \<open>JSON values and dictionaries\<close>

text \<open>
  A value as \<^verbatim>\<open>json.loads\<close> produces it.  A dictionary is an association list read
  through \<^const>\<open>map_of\<close>; \<^verbatim>\<open>None\<close> is \<open>JNull\<close>.
\<close>

datatype json =
    JNull
  | JBool bool
  | JInt int
  | JFloat real
  | JStr string
  | JList "json list"
  | JDict "(string \<times> json) list"

type_synonym dict = "(string \<times> json) list"

text \<open>\<^verbatim>\<open>d.get(key, default)\<close>\<close>

definition dict_get :: "dict \<Rightarrow> string \<Rightarrow> json \<Rightarrow> json" where
  "dict_get d key dflt = (case map_of d key of None \<Rightarrow> dflt | Some v \<Rightarrow> v)"

text \<open>\<^verbatim>\<open>o.get(key, default)\<close> for a field of a typed record that may be absent.\<close>

definition get_or :: "'a option \<Rightarrow> 'a \<Rightarrow> 'a" where
  "get_or field dflt = (case field of None \<Rightarrow> dflt | Some v \<Rightarrow> v)"

subsection \<open>Locations and probes\<close>

text \<open>
  A location is the dictionary \<^verbatim>\<open>{page, x, y}\<close>, every key optional.  A probe is a
  dictionary with the keys \<^verbatim>\<open>id\<close>, \<^verbatim>\<open>payload\<close>, \<^verbatim>\<open>location\<close>, \<^verbatim>\<open>_seq\<close>,
  \<^verbatim>\<open>kind\<close>, every one optional, and possibly a top-level \<^verbatim>\<open>edge\<close> key, which
  \<^verbatim>\<open>build_shadow_dom\<close> never reads.  A key that is present holds a value of the type
  that the input format gives it: the identifier is a string, the page and the sequence
  number are integers, a coordinate is a number, the payload is a dictionary of any
  JSON values.
\<close>

record location =
  loc_page :: "int option"
  loc_x :: "real option"
  loc_y :: "real option"

record probe =
  p_id :: "string option"
  p_payload :: "dict option"
  p_location :: "location option"
  p_seq :: "int option"
  p_kind :: "json option"
  p_edge :: "json option"

definition empty_location :: location where
  "empty_location = \<lparr>loc_page = None, loc_x = None, loc_y = None\<rparr>"

subsection \<open>Rectangles and nodes\<close>

datatype Rect = Rect (rect_page: int) (rect_x: real) (rect_y: real) (rect_w: real) (rect_h: real)

text \<open>
  The dataclass \<^verbatim>\<open>ShadowNode\<close>.  Node objects are mutable and shared between the
  build stack and their parent's \<^verbatim>\<open>children\<close> list, so they live in a store (a list
  of objects, an object's address being its index) and \<open>children\<close> holds addresses.
  The field \<^verbatim>\<open>id\<close> is named \<open>node_id\<close>; \<^verbatim>\<open>_start_page\<close>, \<^verbatim>\<open>_start_x\<close> and
  \<^verbatim>\<open>_start_y\<close> lose their underscore.
\<close>

record ShadowNode =
  kind :: json
  node_id :: string
  seq_start :: int
  children :: "nat list"
  rects :: "Rect list"
  payload :: dict
  is_atomic :: bool
  start_page :: int
  start_x :: real
  start_y :: real

text \<open>The constructor call \<^verbatim>\<open>ShadowNode(kind=, id=, seq_start=, payload=, is_atomic=)\<close>
  with the dataclass defaults for the remaining fields.\<close>

definition new_node :: "json \<Rightarrow> string \<Rightarrow> int \<Rightarrow> dict \<Rightarrow> bool \<Rightarrow> ShadowNode" where
  "new_node k i s pl atomic =
     \<lparr>kind = k, node_id = i, seq_start = s, children = [], rects = [], payload = pl,
      is_atomic = atomic, start_page = 1, start_x = 0, start_y = 0\<rparr>"

definition add_child :: "ShadowNode \<Rightarrow> nat \<Rightarrow> ShadowNode" where
  "add_child n c = n\<lparr>children := children n @ [c]\<rparr>"

definition set_start :: "ShadowNode \<Rightarrow> location \<Rightarrow> ShadowNode" where
  "set_start n loc =
     n\<lparr>start_page := get_or (loc_page loc) 1,
       start_x := get_or (loc_x loc) 0,
       start_y := get_or (loc_y loc) 0\<rparr>"

definition close :: "ShadowNode \<Rightarrow> location \<Rightarrow> ShadowNode" where
  "close n end_location =
     (let end_page = get_or (loc_page end_location) 1;
          end_x = get_or (loc_x end_location) 0;
          end_y = get_or (loc_y end_location) 0
      in if start_page n = end_page then
           let h = max (end_y - start_y n) 15
           in n\<lparr>rects := rects n @ [Rect (start_page n) (start_x n) (start_y n) DEFAULT_RECT_WIDTH h]\<rparr>
         else
           let h1 = A4_HEIGHT_PT - start_y n - 50;
               n1 = n\<lparr>rects := rects n @
                      [Rect (start_page n) (start_x n) (start_y n) DEFAULT_RECT_WIDTH (max h1 50)]\<rparr>
           in n1\<lparr>rects := rects n1 @
                      [Rect end_page end_x 50 DEFAULT_RECT_WIDTH (max (end_y - 50) 50)]\<rparr>)"

definition add_atomic_rect :: "ShadowNode \<Rightarrow> location \<Rightarrow> ShadowNode" where
  "add_atomic_rect n loc =
     n\<lparr>rects := rects n @
        [Rect (get_or (loc_page loc) 1) (get_or (loc_x loc) 0) (get_or (loc_y loc) 0) 10 10]\<rparr>"

subsection \<open>\<^verbatim>\<open>str.replace\<close>\<close>

text \<open>
  Python's \<^verbatim>\<open>s.replace(old, new)\<close>: the occurrences of \<open>old\<close> are found from left to
  right without overlap and every one is replaced.  For an empty \<open>old\<close>, \<open>new\<close> is
  inserted before every character and at the end.
\<close>

function str_replace :: "string \<Rightarrow> string \<Rightarrow> string \<Rightarrow> string" where
  "str_replace [] old new = (if old = [] then new else [])"
| "str_replace (c # cs) old new =
     (if old = [] then new @ c # str_replace cs old new
      else if take (length old) (c # cs) = old
        then new @ str_replace (drop (length old) (c # cs)) old new
      else c # str_replace cs old new)"
  by pat_completeness auto
termination
  by (relation "measure (\<lambda>(s, old, new). length s)") (auto simp: neq_Nil_conv)

section \<open>The tree builder\<close>

subsection \<open>State of \<^verbatim>\<open>build_shadow_dom\<close>\<close>

text \<open>
  The store of node objects, the build stack (a list of addresses, its top last) and the
  set \<^verbatim>\<open>pages_seen\<close>.  The root object is allocated first, at address 0.  The
  counters \<open>pushes\<close> and \<open>pops\<close> are not variables of the source: they count the
  executions of \<^verbatim>\<open>stack.append(node)\<close> and of \<^verbatim>\<open>stack.pop()\<close> (which is followed
  at once by \<^verbatim>\<open>closed_node.close(location)\<close>).
\<close>

datatype py_error = IndexError

record build_state =
  heap :: "ShadowNode list"
  stack :: "nat list"
  pages_seen :: "int set"
  pushes :: nat
  pops :: nat

definition init_state :: build_state where
  "init_state =
     \<lparr>heap = [new_node (JStr ''DOCUMENT'') ''ROOT'' 0 [] False], stack = [0],
      pages_seen = {}, pushes = 0, pops = 0\<rparr>"

subsection \<open>One iteration of the loop\<close>

text \<open>
  The body of \<^verbatim>\<open>for probe in probes\<close>.  \<^verbatim>\<open>stack[-1]\<close> raises \<^verbatim>\<open>IndexError\<close>
  on an empty stack.  A new object gets the next free address, \<open>length (heap st)\<close>.
\<close>

definition step :: "build_state \<Rightarrow> probe \<Rightarrow> py_error + build_state" where
  "step st p =
     (let probe_id = get_or (p_id p) ''unknown'';
          pl = get_or (p_payload p) [];
          loc = get_or (p_location p) empty_location;
          seq = get_or (p_seq p) 0;
          knd = dict_get pl ''kind'' (get_or (p_kind p) (JStr ''marker''));
          edge = dict_get pl ''edge'' JNull;
          st1 = (case loc_page loc of
                   None \<Rightarrow> st
                 | Some pg \<Rightarrow> st\<lparr>pages_seen := insert pg (pages_seen st)\<rparr>)
      in if stack st1 = [] then Inl IndexError
         else
           let current_parent = last (stack st1)
           in if edge = JStr ''start'' then
                let node = length (heap st1);
                    h1 = heap st1 @
                      [set_start (new_node knd (str_replace probe_id ''-start'' []) seq pl False) loc];
                    h2 = h1[current_parent := add_child (h1 ! current_parent) node]
                in Inr (st1\<lparr>heap := h2, stack := stack st1 @ [node],
                             pushes := Suc (pushes st1)\<rparr>)
              else if edge = JStr ''end'' then
                if length (stack st1) > 1 then
                  let closed_node = last (stack st1)
                  in Inr (st1\<lparr>heap := (heap st1)[closed_node := close (heap st1 ! closed_node) loc],
                               stack := butlast (stack st1),
                               pops := Suc (pops st1)\<rparr>)
                else Inr st1
              else
                let node = length (heap st1);
                    h1 = heap st1 @ [add_atomic_rect (new_node knd probe_id seq pl True) loc];
                    h2 = h1[current_parent := add_child (h1 ! current_parent) node]
                in Inr (st1\<lparr>heap := h2\<rparr>))"

text \<open>The loop: an exception ends it.\<close>

fun run_probes :: "build_state \<Rightarrow> probe list \<Rightarrow> py_error + build_state" where
  "run_probes st [] = Inr st"
| "run_probes st (p # ps) =
     (case step st p of Inl e \<Rightarrow> Inl e | Inr st' \<Rightarrow> run_probes st' ps)"

subsection \<open>The returned tree\<close>

text \<open>
  \<^verbatim>\<open>root.payload["pages"] = len(pages_seen)\<close>, on the root object at address 0.
\<close>

definition set_pages :: "build_state \<Rightarrow> ShadowNode list" where
  "set_pages st =
     (heap st)[0 := (heap st ! 0)\<lparr>payload :=
        AList.update ''pages'' (JInt (int (card (pages_seen st)))) (payload (heap st ! 0))\<rparr>]"

text \<open>
  The value of an object graph: a node object together with its children, dereferenced.
  \<open>tree_of h a\<close> reads the graph below address \<open>a\<close> of the store \<open>h\<close>.  It follows the
  references that point forward in allocation order; every reference that the builder
  stores does (lemmas \<open>children_forward\<close> and \<open>tree_of_built\<close> below), so nothing is
  left out of a built tree.
\<close>

datatype tree = Tree (obj: ShadowNode) (subtrees: "tree list")

function tree_of :: "ShadowNode list \<Rightarrow> nat \<Rightarrow> tree" where
  "tree_of h a =
     Tree (h ! a) (map (tree_of h) (filter (\<lambda>c. a < c \<and> c < length h) (children (h ! a))))"
  by pat_completeness auto
termination
  by (relation "measure (\<lambda>(h, a). length h - a)") auto

declare tree_of.simps [simp del]

definition build_shadow_dom :: "probe list \<Rightarrow> py_error + tree" where
  "build_shadow_dom probes =
     (case run_probes init_state probes of
        Inl e \<Rightarrow> Inl e
      | Inr st \<Rightarrow> Inr (tree_of (set_pages st) 0))"

section \<open>The fragment collector\<close>

text \<open>
  \<^verbatim>\<open>collect_all_rects(node, results)\<close> appends to the list \<open>results\<close>; the model returns
  the list as it is after the call.  It reads the node and writes nothing to it.
\<close>

type_synonym triple = "json \<times> string \<times> Rect"

fun collect_all_rects :: "tree \<Rightarrow> triple list \<Rightarrow> triple list" where
  "collect_all_rects (Tree node cs) results =
     fold (\<lambda>child res. collect_all_rects child res) cs
       (fold (\<lambda>rect res. res @ [(kind node, node_id node, rect)]) (rects node) results)"

text \<open>
  The traversal as the specification words it: a node's own rectangles in stored order,
  then the triples of its children, the children in stored order.
\<close>

fun preorder_triples :: "tree \<Rightarrow> triple list" where
  "preorder_triples (Tree node cs) =
     map (\<lambda>rect. (kind node, node_id node, rect)) (rects node) @ concat (map preorder_triples cs)"

text \<open>The sum of the rectangle counts over all nodes of a tree.\<close>

fun rect_total :: "tree \<Rightarrow> nat" where
  "rect_total (Tree node cs) = length (rects node) + sum_list (map rect_total cs)"

section \<open>The renderers\<close>

text \<open>
  Both renderers produce text from fixed templates.  The model keeps which template
  chunks are emitted, in which order and for which values, and leaves the characters of
  a chunk (and the formatting of numbers inside it) out.
\<close>

subsection \<open>\<^verbatim>\<open>export_html\<close>\<close>

text \<open>
  \<open>HtmlHead n pages\<close> is the opening chunk of \<^verbatim>\<open>html_parts\<close> (doctype, style sheet,
  heading and the legend ``Total: n rects across pages pages''); \<open>PageOpen\<close>,
  \<open>RectDiv\<close> and \<open>PageClose\<close> are the chunks of one page panel; \<open>HtmlTail\<close> closes
  \<^verbatim>\<open>body\<close> and \<^verbatim>\<open>html\<close>.
\<close>

datatype html_part =
    HtmlHead nat json
  | PageOpen int
  | RectDiv real real real real json string
  | PageClose
  | HtmlTail

text \<open>The dictionary \<^verbatim>\<open>rects_by_page\<close>, its keys in insertion order.\<close>

definition group_by_page :: "triple list \<Rightarrow> (int \<times> triple list) list" where
  "group_by_page all_rects =
     fold (\<lambda>(k, i, rect) d.
            let d1 = (if map_of d (rect_page rect) = None
                      then AList.update (rect_page rect) [] d else d)
            in AList.map_entry (rect_page rect) (\<lambda>l. l @ [(k, i, rect)]) d1)
       all_rects []"

text \<open>
  The list \<^verbatim>\<open>html_parts\<close> that is joined and written to the file.  The loop over
  \<^verbatim>\<open>sorted(rects_by_page.keys())\<close> with the lookup \<^verbatim>\<open>rects_by_page[page_num]\<close> is
  the loop over the entries of the dictionary in ascending key order.
\<close>

definition export_html :: "tree \<Rightarrow> html_part list" where
  "export_html root_node =
     (let pages = dict_get (payload (obj root_node)) ''pages'' (JInt 1);
          all_rects = collect_all_rects root_node [];
          rects_by_page = group_by_page all_rects
      in [HtmlHead (length all_rects) pages] @
         concat (map (\<lambda>(page_num, page_rects).
                        [PageOpen page_num] @
                        map (\<lambda>(k, i, rect).
                               RectDiv (rect_x rect) (rect_y rect) (rect_w rect) (rect_h rect) k i)
                          page_rects @
                        [PageClose])
                   (sort_key fst rects_by_page)) @
         [HtmlTail])"

subsection \<open>\<^verbatim>\<open>print_tree\<close>\<close>

text \<open>
  \<open>RootLine pages\<close> is the line ``[DOCUMENT-ROOT] (Pages: pages)''.  \<open>NodeLine prefix
  is_last node\<close> is the line of \<^verbatim>\<open>to_tree_string\<close> for \<open>node\<close>; \<open>prefix\<close> lists the
  \<^verbatim>\<open>is_last\<close> flags of the enclosing calls, each of which contributes one indentation
  unit to the string \<^verbatim>\<open>prefix\<close>.
\<close>

datatype tree_line =
    RootLine json
  | NodeLine "bool list" bool ShadowNode

function to_tree_string :: "tree \<Rightarrow> bool list \<Rightarrow> bool \<Rightarrow> tree_line list" where
  "to_tree_string (Tree node cs) prefix is_last =
     NodeLine prefix is_last node #
     concat (map (\<lambda>i. to_tree_string (cs ! i) (prefix @ [is_last]) (int i = int (length cs) - 1))
               [0..<length cs])"
  by pat_completeness auto
termination
  by (relation "measure (\<lambda>(t, prefix, is_last). size t)")
    (auto simp: less_Suc_eq_le intro: size_list_estimation' [OF nth_mem])

definition print_tree :: "tree \<Rightarrow> tree_line list" where
  "print_tree root_node =
     (let pages = dict_get (payload (obj root_node)) ''pages'' (JInt 1)
      in RootLine pages #
         concat (map (\<lambda>i. to_tree_string (subtrees root_node ! i) [] (int i = int (length (subtrees root_node)) - 1))
                   [0..<length (subtrees root_node)]))"

section \<open>Notions of the specification\<close>

text \<open>The pairing marker of a probe, as \<^const>\<open>step\<close> reads it.\<close>

definition edge_of :: "probe \<Rightarrow> json" where
  "edge_of p = dict_get (get_or (p_payload p) []) ''edge'' JNull"

text \<open>
  A well-nested probe sequence: every \<^verbatim>\<open>end\<close> finds a \<^verbatim>\<open>start\<close> that is still open,
  and no \<^verbatim>\<open>start\<close> is left open at the end.  \<open>d\<close> is the number of open \<^verbatim>\<open>start\<close>
  probes.  Identifiers play no part: the builder does not compare them.
\<close>

fun well_nested_from :: "nat \<Rightarrow> probe list \<Rightarrow> bool" where
  "well_nested_from d [] = (d = 0)"
| "well_nested_from d (p # ps) =
     (if edge_of p = JStr ''start'' then well_nested_from (Suc d) ps
      else if edge_of p = JStr ''end'' then 0 < d \<and> well_nested_from (d - 1) ps
      else well_nested_from d ps)"

definition well_nested :: "probe list \<Rightarrow> bool" where
  "well_nested ps = well_nested_from 0 ps"

text \<open>
  \<open>stays_open d ps\<close>: a node that is open with \<open>d\<close> further nodes open above it does
  not meet its \<^verbatim>\<open>end\<close> in \<open>ps\<close>.
\<close>

fun stays_open :: "nat \<Rightarrow> probe list \<Rightarrow> bool" where
  "stays_open d [] = True"
| "stays_open d (p # ps) =
     (if edge_of p = JStr ''start'' then stays_open (Suc d) ps
      else if edge_of p = JStr ''end'' then 0 < d \<and> stays_open (d - 1) ps
      else stays_open d ps)"

text \<open>Reachability in the store along \<open>children\<close> references.\<close>

inductive reachable :: "ShadowNode list \<Rightarrow> nat \<Rightarrow> nat \<Rightarrow> bool" for h :: "ShadowNode list" where
  reachable_self: "a < length h \<Longrightarrow> reachable h a a"
| reachable_child:
    "reachable h a b \<Longrightarrow> c \<in> set (children (h ! b)) \<Longrightarrow> c < length h \<Longrightarrow> reachable h a c"

text \<open>All nodes of a tree, each with its subtree, in pre-order.\<close>

fun nodes :: "tree \<Rightarrow> tree list" where
  "nodes (Tree node cs) = Tree node cs # concat (map nodes cs)"

text \<open>
  The centre of a rectangle.  \<^verbatim>\<open>export_html\<close> places a rectangle with its left edge at
  \<open>x\<close> and its top edge at \<open>y\<close>, \<open>w\<close> wide and \<open>h\<close> high, and \<^verbatim>\<open>get_summary\<close> prints
  its vertical span as \<open>y\<close> to \<open>y + h\<close>.
\<close>

definition rect_center :: "Rect \<Rightarrow> real \<times> real" where
  "rect_center r = (rect_x r + rect_w r / 2, rect_y r + rect_h r / 2)"

text \<open>
  An identifier with a trailing suffix removed, as the specification words the identity
  of a paired node; and whether a string occurs in another.
\<close>

definition remove_suffix :: "string \<Rightarrow> string \<Rightarrow> string" where
  "remove_suffix s suf =
     (if length suf \<le> length s \<and> drop (length s - length suf) s = suf
      then take (length s - length suf) s else s)"

fun occurs_in :: "string \<Rightarrow> string \<Rightarrow> bool" where
  "occurs_in old [] = (old = [])"
| "occurs_in old (c # cs) = (take (length old) (c # cs) = old \<or> occurs_in old cs)"

section \<open>Invariant of the build\<close>

text \<open>
  What holds of the store and the stack between two iterations: the stack is never
  empty, its bottom is the root and no address is on it twice; every address on it is
  allocated, and its object is still without rectangles and not atomic; every child
  reference points forward to an allocated object; every object but the root is a child
  of an earlier object.
\<close>

definition wf_state :: "build_state \<Rightarrow> bool" where
  "wf_state st =
     (stack st \<noteq> [] \<and> hd (stack st) = 0 \<and> distinct (stack st)
      \<and> (\<forall>a \<in> set (stack st). a < length (heap st)
            \<and> rects (heap st ! a) = [] \<and> \<not> is_atomic (heap st ! a))
      \<and> (\<forall>a < length (heap st). \<forall>c \<in> set (children (heap st ! a)). a < c \<and> c < length (heap st))
      \<and> (\<forall>c < length (heap st). 0 < c \<longrightarrow> (\<exists>a < c. c \<in> set (children (heap st ! a)))))"

section \<open>The loop body\<close>

text \<open>The four ways through one iteration, and what each does to the state.\<close>

lemma step_total: "stack st \<noteq> [] \<Longrightarrow> \<exists>st'. step st p = Inr st'"
  by (simp add: step_def Let_def split: option.splits)

lemma step_stack_nonempty: "step st p = Inr st' \<Longrightarrow> stack st \<noteq> []"
  by (auto simp add: step_def Let_def split: option.splits if_splits)

lemma step_cases [consumes 1, case_names start pop ignore atomic]:
  assumes "step st p = Inr st'"
  obtains
    (start) n where "edge_of p = JStr ''start''"
      and "n = set_start (new_node (dict_get (get_or (p_payload p) []) ''kind'' (get_or (p_kind p) (JStr ''marker'')))
             (str_replace (get_or (p_id p) ''unknown'') ''-start'' [])
             (get_or (p_seq p) 0) (get_or (p_payload p) []) False)
             (get_or (p_location p) empty_location)"
      and "heap st' = (heap st @ [n])[last (stack st) :=
             add_child ((heap st @ [n]) ! last (stack st)) (length (heap st))]"
      and "stack st' = stack st @ [length (heap st)]"
      and "pushes st' = Suc (pushes st)" and "pops st' = pops st"
  | (pop) "edge_of p = JStr ''end''" and "1 < length (stack st)"
      and "heap st' = (heap st)[last (stack st) :=
             close (heap st ! last (stack st)) (get_or (p_location p) empty_location)]"
      and "stack st' = butlast (stack st)"
      and "pushes st' = pushes st" and "pops st' = Suc (pops st)"
  | (ignore) "edge_of p = JStr ''end''" and "length (stack st) = 1"
      and "heap st' = heap st" and "stack st' = stack st"
      and "pushes st' = pushes st" and "pops st' = pops st"
  | (atomic) n where "edge_of p \<noteq> JStr ''start''" and "edge_of p \<noteq> JStr ''end''"
      and "n = add_atomic_rect (new_node (dict_get (get_or (p_payload p) []) ''kind'' (get_or (p_kind p) (JStr ''marker'')))
             (get_or (p_id p) ''unknown'')
             (get_or (p_seq p) 0) (get_or (p_payload p) []) True)
             (get_or (p_location p) empty_location)"
      and "heap st' = (heap st @ [n])[last (stack st) :=
             add_child ((heap st @ [n]) ! last (stack st)) (length (heap st))]"
      and "stack st' = stack st"
      and "pushes st' = pushes st" and "pops st' = pops st"
proof -
  have ne: "stack st \<noteq> []"
    using assms by (rule step_stack_nonempty)
  consider "edge_of p = JStr ''start''"
    | "edge_of p = JStr ''end''" "1 < length (stack st)"
    | "edge_of p = JStr ''end''" "length (stack st) = 1"
    | "edge_of p \<noteq> JStr ''start''" "edge_of p \<noteq> JStr ''end''"
    using ne by (cases "stack st") (auto simp: Suc_lessI)
  then show thesis
  proof cases
    case 1
    with assms ne show thesis
      by (intro start) (auto simp: step_def edge_of_def Let_def split: option.splits)
  next
    case 2
    with assms ne show thesis
      by (intro pop) (auto simp: step_def edge_of_def Let_def split: option.splits)
  next
    case 3
    with assms ne show thesis
      by (intro ignore) (auto simp: step_def edge_of_def Let_def split: option.splits)
  next
    case 4
    with assms ne show thesis
      by (intro atomic) (auto simp: step_def edge_of_def Let_def split: option.splits)
  qed
qed

lemma step_pages_seen:
  assumes "step st p = Inr st'"
  shows "pages_seen st' =
           (case loc_page (get_or (p_location p) empty_location) of
              None \<Rightarrow> pages_seen st
            | Some pg \<Rightarrow> insert pg (pages_seen st))"
  using assms by (auto simp: step_def Let_def split: option.splits if_splits)

lemma step_ignores_top_level_edge: "step st (p\<lparr>p_edge := e\<rparr>) = step st p"
  by (simp add: step_def)

lemma run_append:
  "run_probes st (ps @ qs) = (case run_probes st ps of Inl e \<Rightarrow> Inl e | Inr st' \<Rightarrow> run_probes st' qs)"
  by (induction ps arbitrary: st) (simp_all split: sum.splits)

lemma step_heap_grows:
  assumes "step st p = Inr st'"
  shows "length (heap st) \<le> length (heap st')"
  using assms
proof (cases rule: step_cases)
  case (start n)
  show ?thesis unfolding start(3) by simp
next
  case pop
  show ?thesis unfolding pop(3) by simp
next
  case ignore
  show ?thesis unfolding ignore(3) by simp
next
  case (atomic n)
  show ?thesis unfolding atomic(4) by simp
qed

lemma step_stack_addresses:
  assumes "step st p = Inr st'" and "a \<in> set (stack st')"
  shows "a \<in> set (stack st) \<or> length (heap st) \<le> a"
  using assms(1)
proof (cases rule: step_cases)
  case (start n)
  show ?thesis using assms(2) unfolding start(4) by auto
next
  case pop
  show ?thesis using assms(2) unfolding pop(4) by (auto dest: in_set_butlastD)
next
  case ignore
  show ?thesis using assms(2) unfolding ignore(4) by simp
next
  case (atomic n)
  show ?thesis using assms(2) unfolding atomic(5) by simp
qed

lemma run_stack_addresses:
  assumes "run_probes st qs = Inr st'" and "a \<in> set (stack st')"
  shows "a \<in> set (stack st) \<or> length (heap st) \<le> a"
  using assms
proof (induction qs arbitrary: st)
  case Nil
  then show ?case by simp
next
  case (Cons q qs)
  then obtain st1 where st1: "step st q = Inr st1" "run_probes st1 qs = Inr st'"
    by (auto split: sum.splits)
  from Cons.IH [OF st1(2) Cons.prems(2)]
  have "a \<in> set (stack st1) \<or> length (heap st1) \<le> a" .
  then show ?case
    using step_stack_addresses [OF st1(1), of a] step_heap_grows [OF st1(1)] by auto
qed

section \<open>The invariant holds throughout\<close>

lemma wf_init: "wf_state init_state"
  by (simp add: wf_state_def init_state_def new_node_def)

lemma wfD_stack:
  assumes "wf_state st" and "a \<in> set (stack st)"
  shows "a < length (heap st)" and "rects (heap st ! a) = []" and "\<not> is_atomic (heap st ! a)"
  using assms unfolding wf_state_def by blast+

lemma wfD_children:
  assumes "wf_state st" and "a < length (heap st)" and "c \<in> set (children (heap st ! a))"
  shows "a < c" and "c < length (heap st)"
  using assms unfolding wf_state_def by blast+

lemma wfD_parent:
  assumes "wf_state st" and "c < length (heap st)" and "0 < c"
  shows "\<exists>a<c. c \<in> set (children (heap st ! a))"
  using assms unfolding wf_state_def by blast

lemma wfD_shape:
  assumes "wf_state st"
  shows "stack st \<noteq> []" and "hd (stack st) = 0" and "distinct (stack st)"
  using assms unfolding wf_state_def by blast+

lemma wf_top: "wf_state st \<Longrightarrow> last (stack st) < length (heap st)"
  using wfD_stack(1) [of st "last (stack st)"] wfD_shape(1) [of st] by simp

lemma wf_stateI:
  assumes "stack st \<noteq> []" and "hd (stack st) = 0" and "distinct (stack st)"
    and "\<And>a. a \<in> set (stack st) \<Longrightarrow>
           a < length (heap st) \<and> rects (heap st ! a) = [] \<and> \<not> is_atomic (heap st ! a)"
    and "\<And>a c. a < length (heap st) \<Longrightarrow> c \<in> set (children (heap st ! a)) \<Longrightarrow>
           a < c \<and> c < length (heap st)"
    and "\<And>c. c < length (heap st) \<Longrightarrow> 0 < c \<Longrightarrow> \<exists>a<c. c \<in> set (children (heap st ! a))"
  shows "wf_state st"
  using assms unfolding wf_state_def by blast

text \<open>The store after a new object \<open>n\<close> has been allocated and added to the children of \<open>par\<close>.\<close>

lemma alloc_nth:
  assumes "par < length h" and "b \<le> length h"
  shows "(h @ [n])[par := add_child ((h @ [n]) ! par) (length h)] ! b =
           (if b = par then add_child (h ! par) (length h) else if b = length h then n else h ! b)"
  using assms by (auto simp: nth_list_update nth_append)

lemma alloc_children:
  assumes "par < length h" and "b \<le> length h"
  shows "children ((h @ [n])[par := add_child ((h @ [n]) ! par) (length h)] ! b) =
           (if b = par then children (h ! par) @ [length h]
            else if b = length h then children n else children (h ! b))"
  unfolding alloc_nth [OF assms] using assms by (simp add: add_child_def)

lemma alloc_rects:
  assumes "par < length h" and "b \<le> length h"
  shows "rects ((h @ [n])[par := add_child ((h @ [n]) ! par) (length h)] ! b) =
           (if b = length h then rects n else rects (h ! b))"
  unfolding alloc_nth [OF assms] using assms by (simp add: add_child_def)

lemma alloc_is_atomic:
  assumes "par < length h" and "b \<le> length h"
  shows "is_atomic ((h @ [n])[par := add_child ((h @ [n]) ! par) (length h)] ! b) =
           (if b = length h then is_atomic n else is_atomic (h ! b))"
  unfolding alloc_nth [OF assms] using assms by (simp add: add_child_def)

lemma wf_alloc:
  assumes wf: "wf_state st"
    and heap': "heap st' = (heap st @ [n])[last (stack st) :=
          add_child ((heap st @ [n]) ! last (stack st)) (length (heap st))]"
    and stack': "stack st' = stack st \<or>
          (stack st' = stack st @ [length (heap st)] \<and> rects n = [] \<and> \<not> is_atomic n)"
    and n: "children n = []"
  shows "wf_state st'"
proof (rule wf_stateI)
  let ?a = "length (heap st)" and ?top = "last (stack st)"
  have top: "?top < ?a" using wf by (rule wf_top)
  have len: "length (heap st') = Suc ?a" using heap' by simp
  have old: "b < ?a" if "b \<in> set (stack st)" for b
    using wf that by (rule wfD_stack)
  show "stack st' \<noteq> []" using stack' wfD_shape(1) [OF wf] by auto
  show "hd (stack st') = 0" using stack' wfD_shape(1,2) [OF wf] by auto
  show "distinct (stack st')"
  proof -
    have "?a \<notin> set (stack st)" using old by blast
    then show ?thesis using stack' wfD_shape(3) [OF wf] by auto
  qed
  show "a < length (heap st') \<and> rects (heap st' ! a) = [] \<and> \<not> is_atomic (heap st' ! a)"
    if a: "a \<in> set (stack st')" for a
  proof (cases "a \<in> set (stack st)")
    case True
    then have "a < ?a" "rects (heap st ! a) = []" "\<not> is_atomic (heap st ! a)"
      using wf by (auto dest: wfD_stack)
    then show ?thesis
      using top by (simp add: heap' alloc_rects alloc_is_atomic)
  next
    case False
    then have "a = ?a" "rects n = []" "\<not> is_atomic n"
      using a stack' by auto
    then show ?thesis
      using top by (simp add: heap' alloc_rects alloc_is_atomic)
  qed
  show "a < c \<and> c < length (heap st')"
    if a: "a < length (heap st')" and c: "c \<in> set (children (heap st' ! a))" for a c
  proof -
    have a': "a \<le> ?a" using a len by simp
    have ch: "children (heap st' ! a) =
        (if a = ?top then children (heap st ! ?top) @ [?a]
         else if a = ?a then children n else children (heap st ! a))"
      unfolding heap' using top a' by (rule alloc_children)
    show ?thesis
    proof (cases "a = ?a")
      case True
      then show ?thesis using c ch n top by simp
    next
      case False
      then have lt: "a < ?a" using a' by simp
      show ?thesis
      proof (cases "c \<in> set (children (heap st ! a))")
        case True
        then have "a < c" "c < ?a" using wf lt by (auto dest: wfD_children)
        then show ?thesis using len by simp
      next
        case False
        then have "c = ?a" using c ch lt by (auto split: if_splits)
        then show ?thesis using lt len by simp
      qed
    qed
  qed
  show "\<exists>a<c. c \<in> set (children (heap st' ! a))"
    if c: "c < length (heap st')" and pos: "0 < c" for c
  proof (cases "c = ?a")
    case True
    have "children (heap st' ! ?top) = children (heap st ! ?top) @ [?a]"
      unfolding heap' using top by (subst alloc_children) simp_all
    then show ?thesis using True top by auto
  next
    case False
    then have lt: "c < ?a" using c len by simp
    then obtain b where b: "b < c" "c \<in> set (children (heap st ! b))"
      using wfD_parent [OF wf lt pos] by blast
    then have "children (heap st' ! b) =
        (if b = ?top then children (heap st ! ?top) @ [?a] else children (heap st ! b))"
      unfolding heap' using top lt b by (subst alloc_children) simp_all
    then have "c \<in> set (children (heap st' ! b))" using b by auto
    then show ?thesis using b by blast
  qed
qed

lemma children_close: "children (close x l) = children x"
  by (simp add: close_def Let_def)

lemma is_atomic_close: "is_atomic (close x l) = is_atomic x"
  by (simp add: close_def Let_def)

lemma wf_pop:
  assumes wf: "wf_state st" and long: "1 < length (stack st)"
    and heap': "heap st' = (heap st)[last (stack st) := close (heap st ! last (stack st)) l]"
    and stack': "stack st' = butlast (stack st)"
  shows "wf_state st'"
proof (rule wf_stateI)
  let ?top = "last (stack st)"
  have ne: "stack st \<noteq> []" using wf by (rule wfD_shape)
  have top: "?top < length (heap st)" using wf by (rule wf_top)
  have len: "length (heap st') = length (heap st)" using heap' by simp
  have ch: "children (heap st' ! b) = children (heap st ! b)" if "b < length (heap st)" for b
    using that top by (auto simp: heap' nth_list_update children_close)
  have notin: "?top \<notin> set (butlast (stack st))"
    using wfD_shape(3) [OF wf] ne by (cases "stack st" rule: rev_cases) auto
  obtain x xs where xs: "stack st = x # xs" "xs \<noteq> []"
    using long by (cases "stack st") auto
  show "stack st' \<noteq> []" using stack' xs by simp
  show "hd (stack st') = 0" using stack' xs wfD_shape(2) [OF wf] by simp
  show "distinct (stack st')" using stack' wfD_shape(3) [OF wf] by (simp add: distinct_butlast)
  show "a < length (heap st') \<and> rects (heap st' ! a) = [] \<and> \<not> is_atomic (heap st' ! a)"
    if a: "a \<in> set (stack st')" for a
  proof -
    have mem: "a \<in> set (stack st)" using a stack' by (auto dest: in_set_butlastD)
    have neq: "a \<noteq> ?top" using a stack' notin by auto
    have "a < length (heap st)" "rects (heap st ! a) = []" "\<not> is_atomic (heap st ! a)"
      using wf mem by (auto dest: wfD_stack)
    then show ?thesis using neq by (simp add: heap')
  qed
  show "a < c \<and> c < length (heap st')"
    if "a < length (heap st')" and "c \<in> set (children (heap st' ! a))" for a c
    using that wfD_children [OF wf, of a c] by (simp add: len ch)
  show "\<exists>a<c. c \<in> set (children (heap st' ! a))"
    if c: "c < length (heap st')" and pos: "0 < c" for c
  proof -
    obtain b where b: "b < c" "c \<in> set (children (heap st ! b))"
      using wfD_parent [OF wf _ pos] c len by auto
    then have "c \<in> set (children (heap st' ! b))" using c len by (simp add: ch)
    then show ?thesis using b by blast
  qed
qed

lemma wf_step:
  assumes wf: "wf_state st" and st: "step st p = Inr st'"
  shows "wf_state st'"
  using st
proof (cases rule: step_cases)
  case (start n)
  have n: "rects n = []" "\<not> is_atomic n" "children n = []"
    unfolding start(2) by (simp_all add: set_start_def new_node_def)
  show ?thesis
  proof (rule wf_alloc [OF wf start(3) _ n(3)])
    show "stack st' = stack st \<or>
        stack st' = stack st @ [length (heap st)] \<and> rects n = [] \<and> \<not> is_atomic n"
      using start(4) n by blast
  qed
next
  case pop
  show ?thesis
    by (rule wf_pop [OF wf pop(2) pop(3) pop(4)])
next
  case ignore
  have "wf_state st' = wf_state st"
    unfolding wf_state_def ignore(3) ignore(4) by (rule refl)
  then show ?thesis using wf by blast
next
  case (atomic n)
  have n: "children n = []"
    unfolding atomic(3) by (simp add: add_atomic_rect_def new_node_def)
  show ?thesis
  proof (rule wf_alloc [OF wf atomic(4) _ n])
    show "stack st' = stack st \<or>
        stack st' = stack st @ [length (heap st)] \<and> rects n = [] \<and> \<not> is_atomic n"
      using atomic(5) by blast
  qed
qed

lemma wf_run:
  "wf_state st \<Longrightarrow> run_probes st ps = Inr st' \<Longrightarrow> wf_state st'"
proof (induction ps arbitrary: st)
  case Nil
  then show ?case by simp
next
  case (Cons p ps)
  then obtain st1 where "step st p = Inr st1" "run_probes st1 ps = Inr st'"
    by (auto split: sum.splits)
  then show ?case using Cons.IH Cons.prems(1) wf_step by blast
qed

lemma run_total: "wf_state st \<Longrightarrow> \<exists>st'. run_probes st ps = Inr st'"
proof (induction ps arbitrary: st)
  case Nil
  then show ?case by simp
next
  case (Cons p ps)
  then obtain st1 where st1: "step st p = Inr st1"
    using step_total [of st p] wfD_shape(1) by blast
  then have "wf_state st1" using Cons.prems wf_step by blast
  then show ?case using Cons.IH st1 by simp
qed

text \<open>\<^verbatim>\<open>build_shadow_dom\<close> raises on no input.\<close>

lemma build_total: "\<exists>t. build_shadow_dom ps = Inr t"
  using run_total [OF wf_init, of ps] by (auto simp: build_shadow_dom_def)

lemma children_forward:
  assumes "run_probes init_state ps = Inr st"
    and "a < length (heap st)" and "c \<in> set (children (heap st ! a))"
  shows "a < c \<and> c < length (heap st)"
  using wfD_children [OF wf_run [OF wf_init assms(1)] assms(2,3)] by simp

section \<open>The objects that an iteration allocates\<close>

lemma step_atomic_node:
  assumes "step st p = Inr st'" and "edge_of p \<noteq> JStr ''start''" and "edge_of p \<noteq> JStr ''end''"
    and "last (stack st) < length (heap st)"
  shows "heap st' ! length (heap st) =
           \<lparr>kind = dict_get (get_or (p_payload p) []) ''kind'' (get_or (p_kind p) (JStr ''marker'')),
            node_id = get_or (p_id p) ''unknown'', seq_start = get_or (p_seq p) 0,
            children = [],
            rects = [Rect (get_or (loc_page (get_or (p_location p) empty_location)) 1)
                          (get_or (loc_x (get_or (p_location p) empty_location)) 0)
                          (get_or (loc_y (get_or (p_location p) empty_location)) 0) 10 10],
            payload = get_or (p_payload p) [], is_atomic = True,
            start_page = 1, start_x = 0, start_y = 0\<rparr>
         \<and> length (heap st') = Suc (length (heap st))
         \<and> children (heap st' ! last (stack st)) =
             children (heap st ! last (stack st)) @ [length (heap st)]
         \<and> stack st' = stack st"
  using assms(1)
proof (cases rule: step_cases)
  case (atomic n)
  have "heap st' ! length (heap st) = n"
    unfolding atomic(4) using assms(4) by (simp add: alloc_nth)
  then have 1: "heap st' ! length (heap st) =
           \<lparr>kind = dict_get (get_or (p_payload p) []) ''kind'' (get_or (p_kind p) (JStr ''marker'')),
            node_id = get_or (p_id p) ''unknown'', seq_start = get_or (p_seq p) 0,
            children = [],
            rects = [Rect (get_or (loc_page (get_or (p_location p) empty_location)) 1)
                          (get_or (loc_x (get_or (p_location p) empty_location)) 0)
                          (get_or (loc_y (get_or (p_location p) empty_location)) 0) 10 10],
            payload = get_or (p_payload p) [], is_atomic = True,
            start_page = 1, start_x = 0, start_y = 0\<rparr>"
    unfolding atomic(3) by (simp add: add_atomic_rect_def new_node_def)
  have 2: "length (heap st') = Suc (length (heap st))"
    unfolding atomic(4) by simp
  have 3: "children (heap st' ! last (stack st)) =
           children (heap st ! last (stack st)) @ [length (heap st)]"
    unfolding atomic(4) using assms(4) by (subst alloc_children) simp_all
  show ?thesis
    using 1 2 3 atomic(5) by blast
qed (use assms in simp_all)

lemma step_start_node:
  assumes "step st p = Inr st'" and "edge_of p = JStr ''start''"
    and "last (stack st) < length (heap st)"
  shows "heap st' ! length (heap st) =
           \<lparr>kind = dict_get (get_or (p_payload p) []) ''kind'' (get_or (p_kind p) (JStr ''marker'')),
            node_id = str_replace (get_or (p_id p) ''unknown'') ''-start'' [],
            seq_start = get_or (p_seq p) 0, children = [], rects = [],
            payload = get_or (p_payload p) [], is_atomic = False,
            start_page = get_or (loc_page (get_or (p_location p) empty_location)) 1,
            start_x = get_or (loc_x (get_or (p_location p) empty_location)) 0,
            start_y = get_or (loc_y (get_or (p_location p) empty_location)) 0\<rparr>
         \<and> length (heap st') = Suc (length (heap st))
         \<and> children (heap st' ! last (stack st)) =
             children (heap st ! last (stack st)) @ [length (heap st)]
         \<and> stack st' = stack st @ [length (heap st)]"
  using assms(1)
proof (cases rule: step_cases)
  case (start n)
  have "heap st' ! length (heap st) = n"
    unfolding start(3) using assms(3) by (simp add: alloc_nth)
  then have 1: "heap st' ! length (heap st) =
           \<lparr>kind = dict_get (get_or (p_payload p) []) ''kind'' (get_or (p_kind p) (JStr ''marker'')),
            node_id = str_replace (get_or (p_id p) ''unknown'') ''-start'' [],
            seq_start = get_or (p_seq p) 0, children = [], rects = [],
            payload = get_or (p_payload p) [], is_atomic = False,
            start_page = get_or (loc_page (get_or (p_location p) empty_location)) 1,
            start_x = get_or (loc_x (get_or (p_location p) empty_location)) 0,
            start_y = get_or (loc_y (get_or (p_location p) empty_location)) 0\<rparr>"
    unfolding start(2) by (simp add: set_start_def new_node_def)
  have 2: "length (heap st') = Suc (length (heap st))"
    unfolding start(3) by simp
  have 3: "children (heap st' ! last (stack st)) =
           children (heap st ! last (stack st)) @ [length (heap st)]"
    unfolding start(3) using assms(3) by (subst alloc_children) simp_all
  show ?thesis
    using 1 2 3 start(4) by blast
qed (use assms in simp_all)

text \<open>An object keeps its identifier, sequence number and kind for good.\<close>

lemma step_keeps_identity:
  assumes "step st p = Inr st'" and "last (stack st) < length (heap st)" and "b < length (heap st)"
  shows "node_id (heap st' ! b) = node_id (heap st ! b) \<and> seq_start (heap st' ! b) = seq_start (heap st ! b)
         \<and> kind (heap st' ! b) = kind (heap st ! b)"
  using assms(1)
proof (cases rule: step_cases)
  case (start n)
  have "heap st' ! b = (if b = last (stack st) then add_child (heap st ! last (stack st)) (length (heap st))
      else if b = length (heap st) then n else heap st ! b)"
    unfolding start(3) by (rule alloc_nth) (use assms(2,3) in simp_all)
  then show ?thesis
    using assms(3) by (simp add: add_child_def)
next
  case pop
  have "node_id (close x l) = node_id x \<and> seq_start (close x l) = seq_start x
      \<and> kind (close x l) = kind x" for x l
    by (simp add: close_def Let_def)
  then show ?thesis
    unfolding pop(3) using assms(2,3) by (cases "b = last (stack st)") simp_all
next
  case ignore
  show ?thesis unfolding ignore(3) by simp
next
  case (atomic n)
  have "heap st' ! b = (if b = last (stack st) then add_child (heap st ! last (stack st)) (length (heap st))
      else if b = length (heap st) then n else heap st ! b)"
    unfolding atomic(4) by (rule alloc_nth) (use assms(2,3) in simp_all)
  then show ?thesis
    using assms(3) by (simp add: add_child_def)
qed

lemma run_keeps_identity:
  assumes "wf_state st" and "run_probes st qs = Inr st'" and "b < length (heap st)"
  shows "node_id (heap st' ! b) = node_id (heap st ! b) \<and> seq_start (heap st' ! b) = seq_start (heap st ! b)
         \<and> kind (heap st' ! b) = kind (heap st ! b)"
  using assms
proof (induction qs arbitrary: st)
  case Nil
  then show ?case by simp
next
  case (Cons q qs)
  then obtain st1 where st1: "step st q = Inr st1" "run_probes st1 qs = Inr st'"
    by (auto split: sum.splits)
  have wf1: "wf_state st1" using Cons.prems(1) st1(1) by (rule wf_step)
  have b1: "b < length (heap st1)"
    using step_heap_grows [OF st1(1)] Cons.prems(3) by simp
  have "node_id (heap st1 ! b) = node_id (heap st ! b) \<and> seq_start (heap st1 ! b) = seq_start (heap st ! b)
      \<and> kind (heap st1 ! b) = kind (heap st ! b)"
    using st1(1) wf_top [OF Cons.prems(1)] Cons.prems(3) by (rule step_keeps_identity)
  then show ?case
    using Cons.IH [OF wf1 st1(2) b1] by simp
qed

section \<open>Trees read from the store\<close>

lemma tree_of_children:
  assumes "\<forall>c\<in>set (children (h ! a)). a < c \<and> c < length h"
  shows "tree_of h a = Tree (h ! a) (map (tree_of h) (children (h ! a)))"
proof -
  have "filter (\<lambda>c. a < c \<and> c < length h) (children (h ! a)) = children (h ! a)"
    using assms by (simp add: filter_id_conv)
  then show ?thesis
    by (subst tree_of.simps) simp
qed

lemma nodes_self: "t \<in> set (nodes t)"
  by (cases t) simp

lemma nodes_subtree:
  assumes "c \<in> set (subtrees t)" and "v \<in> set (nodes c)"
  shows "v \<in> set (nodes t)"
  using assms by (cases t) auto

lemma nodes_trans:
  "u \<in> set (nodes t) \<Longrightarrow> v \<in> set (nodes u) \<Longrightarrow> v \<in> set (nodes t)"
proof (induction t)
  case (Tree node cs)
  then show ?case by auto
qed

lemma reachable_allocated: "reachable h a b \<Longrightarrow> b < length h"
  by (induction rule: reachable.induct) simp_all

lemma reachable_in_tree:
  assumes fwd: "\<forall>a<length h. \<forall>c\<in>set (children (h ! a)). a < c \<and> c < length h"
    and "reachable h a c"
  shows "tree_of h c \<in> set (nodes (tree_of h a))"
  using assms(2)
proof (induction rule: reachable.induct)
  case (reachable_self a)
  show ?case by (rule nodes_self)
next
  case (reachable_child a b c)
  have b: "b < length h"
    using reachable_child.hyps(1) by (rule reachable_allocated)
  then have "tree_of h b = Tree (h ! b) (map (tree_of h) (children (h ! b)))"
    using fwd by (intro tree_of_children) blast
  then have "tree_of h c \<in> set (subtrees (tree_of h b))"
    using reachable_child.hyps(2) by simp
  then have "tree_of h c \<in> set (nodes (tree_of h b))"
    using nodes_self by (rule nodes_subtree)
  with reachable_child.IH show ?case
    by (rule nodes_trans)
qed

lemma all_reachable:
  assumes par: "\<forall>c<length h. 0 < c \<longrightarrow> (\<exists>a<c. c \<in> set (children (h ! a)))"
    and "a < length h"
  shows "reachable h 0 a"
  using assms(2)
proof (induction a rule: less_induct)
  case (less a)
  show ?case
  proof (cases "a = 0")
    case True
    then show ?thesis using less.prems by (auto intro: reachable_self)
  next
    case False
    then obtain b where b: "b < a" "a \<in> set (children (h ! b))"
      using par less.prems by auto
    then have "reachable h 0 b" using less by simp
    then show ?thesis using b(2) less.prems by (rule reachable_child)
  qed
qed

lemma length_set_pages: "length (set_pages st) = length (heap st)"
  by (simp add: set_pages_def)

lemma children_set_pages: "children (set_pages st ! a) = children (heap st ! a)"
  by (cases "a = 0"; cases "heap st") (simp_all add: set_pages_def)

lemma rects_set_pages: "rects (set_pages st ! a) = rects (heap st ! a)"
  by (cases "a = 0"; cases "heap st") (simp_all add: set_pages_def)

lemma tree_of_built:
  assumes "run_probes init_state ps = Inr st" and "a < length (heap st)"
  shows "tree_of (set_pages st) a =
           Tree (set_pages st ! a) (map (tree_of (set_pages st)) (children (heap st ! a)))"
proof -
  have "\<forall>c\<in>set (children (set_pages st ! a)). a < c \<and> c < length (set_pages st)"
    unfolding children_set_pages length_set_pages
    using children_forward [OF assms] by blast
  then show ?thesis
    unfolding children_set_pages [symmetric] by (rule tree_of_children)
qed

section \<open>Removing \<^verbatim>\<open>-start\<close>\<close>

lemma str_replace_no_occurrence:
  assumes "\<not> occurs_in old s" and "old \<noteq> []"
  shows "str_replace s old new = s"
  using assms by (induction s) simp_all

lemma no_straddle:
  assumes "take 6 (c # cs) \<noteq> ''-start''"
  shows "take 6 ((c # cs) @ ''-start'') \<noteq> ''-start''"
proof (cases "6 \<le> length (c # cs)")
  case True
  then show ?thesis using assms by simp
next
  case False
  then have short: "length cs < 5" by simp
  show ?thesis
  proof
    assume eq: "take 6 ((c # cs) @ ''-start'') = ''-start''"
    have "take 6 ((c # cs) @ ''-start'') = c # cs @ take (5 - length cs) ''-start''"
      using short by simp
    with eq have tl: "cs @ take (5 - length cs) ''-start'' = ''start''"
      by simp
    obtain k where k: "5 - length cs = Suc k"
      using short by (cases "5 - length cs") simp_all
    have "CHR ''-'' \<in> set (cs @ take (5 - length cs) ''-start'')"
      unfolding k by simp
    then show False
      unfolding tl by simp
  qed
qed

lemma str_replace_trailing_only:
  assumes "\<not> occurs_in ''-start'' s"
  shows "str_replace (s @ ''-start'') ''-start'' [] = s"
  using assms
proof (induction s)
  case Nil
  show ?case by simp
next
  case (Cons c cs)
  have len: "length ''-start'' = 6" by simp
  have ne: "''-start'' \<noteq> []" by simp
  from Cons.prems
  have nd: "take (length ''-start'') (c # cs) \<noteq> ''-start'' \<and> \<not> occurs_in ''-start'' cs"
    unfolding occurs_in.simps de_Morgan_disj .
  note rest = nd [THEN conjunct2]
  from nd [THEN conjunct1] have "take 6 (c # cs) \<noteq> ''-start''"
    unfolding len .
  then have "take 6 ((c # cs) @ ''-start'') \<noteq> ''-start''"
    by (rule no_straddle)
  then have t: "take (length ''-start'') (c # (cs @ ''-start'')) \<noteq> ''-start''"
    unfolding len append_Cons .
  have "str_replace (c # (cs @ ''-start'')) ''-start'' [] =
      c # str_replace (cs @ ''-start'') ''-start'' []"
    unfolding str_replace.simps(2) [of c "cs @ ''-start''" "''-start''" "[]"]
    using ne t by (simp only: if_False)
  also have "\<dots> = c # cs"
    using Cons.IH [OF rest] by (simp only:)
  finally show ?case
    unfolding append_Cons .
qed

section \<open>Stack discipline (C1)\<close>

lemma run_well_nested:
  assumes "well_nested_from d ps" and "length (stack st) = Suc d"
  shows "\<exists>st'. run_probes st ps = Inr st' \<and> stack st' = [hd (stack st)]
           \<and> pushes st + pops st' = pushes st' + pops st + d"
  using assms
proof (induction ps arbitrary: st d)
  case Nil
  then show ?case by (cases "stack st") simp_all
next
  case (Cons p ps)
  have ne: "stack st \<noteq> []" using Cons.prems(2) by auto
  then obtain st1 where st1: "step st p = Inr st1"
    using step_total by blast
  from st1 show ?case
  proof (cases rule: step_cases)
    case (start n)
    then have "well_nested_from (Suc d) ps" "length (stack st1) = Suc (Suc d)"
      using Cons.prems by simp_all
    from Cons.IH [OF this] obtain st' where
      "run_probes st1 ps = Inr st'" "stack st' = [hd (stack st1)]"
      "pushes st1 + pops st' = pushes st' + pops st1 + Suc d"
      by blast
    then show ?thesis using st1 start ne by simp
  next
    case pop
    then obtain d' where d: "d = Suc d'" using Cons.prems(2) by (cases d) simp_all
    have "well_nested_from d' ps" "length (stack st1) = Suc d'"
      using Cons.prems pop d by simp_all
    from Cons.IH [OF this] obtain st' where
      "run_probes st1 ps = Inr st'" "stack st' = [hd (stack st1)]"
      "pushes st1 + pops st' = pushes st' + pops st1 + d'"
      by blast
    moreover have "hd (butlast (stack st)) = hd (stack st)"
      using pop(2) by (cases "stack st") auto
    ultimately show ?thesis using st1 pop d by simp
  next
    case ignore
    then show ?thesis using Cons.prems by simp
  next
    case (atomic n)
    then have "well_nested_from d ps" "length (stack st1) = Suc d"
      using Cons.prems by simp_all
    from Cons.IH [OF this] obtain st' where
      "run_probes st1 ps = Inr st'" "stack st' = [hd (stack st1)]"
      "pushes st1 + pops st' = pushes st' + pops st1 + d"
      by blast
    then show ?thesis using st1 atomic by simp
  qed
qed

text \<open>
  C1.  A probe sequence is well nested when every \<^verbatim>\<open>end\<close> meets a \<^verbatim>\<open>start\<close> that is
  still open and no \<^verbatim>\<open>start\<close> is left open at the end (\<^const>\<open>well_nested\<close>).  On
  every such sequence the loop of \<^verbatim>\<open>build_shadow_dom\<close> runs to its end without an
  exception, it has executed \<^verbatim>\<open>stack.pop()\<close> (each followed by \<^verbatim>\<open>close\<close>) exactly
  as often as \<^verbatim>\<open>stack.append(node)\<close>, and the stack then holds one address, that of
  the root object \<^verbatim>\<open>DOCUMENT\<close>/\<^verbatim>\<open>ROOT\<close>.
\<close>

theorem well_nested_balanced:
  assumes "well_nested ps"
  shows "\<exists>st. run_probes init_state ps = Inr st \<and> pops st = pushes st \<and> stack st = [0]
           \<and> kind (heap st ! 0) = JStr ''DOCUMENT'' \<and> node_id (heap st ! 0) = ''ROOT''"
proof -
  have "well_nested_from 0 ps" "length (stack init_state) = Suc 0"
    using assms by (simp_all add: well_nested_def init_state_def)
  from run_well_nested [OF this]
  obtain st where st: "run_probes init_state ps = Inr st" "stack st = [hd (stack init_state)]"
    "pushes init_state + pops st = pushes st + pops init_state + 0"
    by blast
  have "node_id (heap st ! 0) = node_id (heap init_state ! 0)
      \<and> kind (heap st ! 0) = kind (heap init_state ! 0)"
    using run_keeps_identity [OF wf_init st(1), of 0] by (simp add: init_state_def)
  then show ?thesis
    using st by (simp add: init_state_def new_node_def)
qed

text \<open>A \<^verbatim>\<open>start\<close>, an atomic probe inside it, and the \<^verbatim>\<open>end\<close>.\<close>

theorem well_nested_balanced_witness:
  "well_nested
     [\<lparr>p_id = Some ''p1-start'', p_payload = Some [(''edge'', JStr ''start'')],
        p_location = Some \<lparr>loc_page = Some 1, loc_x = Some 0, loc_y = Some 100\<rparr>,
        p_seq = Some 0, p_kind = None, p_edge = None\<rparr>,
      \<lparr>p_id = Some ''m'', p_payload = None, p_location = None,
        p_seq = Some 1, p_kind = None, p_edge = None\<rparr>,
      \<lparr>p_id = Some ''p1-end'', p_payload = Some [(''edge'', JStr ''end'')],
        p_location = Some \<lparr>loc_page = Some 1, loc_x = Some 0, loc_y = Some 140\<rparr>,
        p_seq = Some 2, p_kind = None, p_edge = None\<rparr>]
   \<and> (\<exists>st. run_probes init_state
     [\<lparr>p_id = Some ''p1-start'', p_payload = Some [(''edge'', JStr ''start'')],
        p_location = Some \<lparr>loc_page = Some 1, loc_x = Some 0, loc_y = Some 100\<rparr>,
        p_seq = Some 0, p_kind = None, p_edge = None\<rparr>,
      \<lparr>p_id = Some ''m'', p_payload = None, p_location = None,
        p_seq = Some 1, p_kind = None, p_edge = None\<rparr>,
      \<lparr>p_id = Some ''p1-end'', p_payload = Some [(''edge'', JStr ''end'')],
        p_location = Some \<lparr>loc_page = Some 1, loc_x = Some 0, loc_y = Some 140\<rparr>,
        p_seq = Some 2, p_kind = None, p_edge = None\<rparr>] = Inr st
      \<and> pops st = pushes st \<and> stack st = [0])"
proof -
  have wn: "well_nested
     [\<lparr>p_id = Some ''p1-start'', p_payload = Some [(''edge'', JStr ''start'')],
        p_location = Some \<lparr>loc_page = Some 1, loc_x = Some 0, loc_y = Some 100\<rparr>,
        p_seq = Some 0, p_kind = None, p_edge = None\<rparr>,
      \<lparr>p_id = Some ''m'', p_payload = None, p_location = None,
        p_seq = Some 1, p_kind = None, p_edge = None\<rparr>,
      \<lparr>p_id = Some ''p1-end'', p_payload = Some [(''edge'', JStr ''end'')],
        p_location = Some \<lparr>loc_page = Some 1, loc_x = Some 0, loc_y = Some 140\<rparr>,
        p_seq = Some 2, p_kind = None, p_edge = None\<rparr>]"
    by (simp add: well_nested_def edge_of_def dict_get_def get_or_def)
  show ?thesis
    using wn well_nested_balanced [OF wn] by blast
qed

section \<open>Geometry synthesis on close (C2, C3)\<close>

text \<open>
  A node is closed by the \<^verbatim>\<open>end\<close> probe that finds it on top of the stack; until
  then its object has no rectangle.
\<close>

lemma end_closes_top:
  assumes "run_probes init_state ps = Inr st" and "edge_of p = JStr ''end''"
    and "1 < length (stack st)"
  shows "\<exists>st'. step st p = Inr st'
           \<and> rects (heap st ! last (stack st)) = []
           \<and> heap st' = (heap st)[last (stack st) :=
                 close (heap st ! last (stack st)) (get_or (p_location p) empty_location)]
           \<and> stack st' = butlast (stack st)"
proof -
  have wf: "wf_state st"
    using wf_run [OF wf_init assms(1)] .
  then have ne: "stack st \<noteq> []"
    by (rule wfD_shape)
  then obtain st' where st': "step st p = Inr st'"
    using step_total by blast
  have "rects (heap st ! last (stack st)) = []"
    using wf ne by (intro wfD_stack(2)) simp_all
  moreover from st' have "heap st' = (heap st)[last (stack st) :=
      close (heap st ! last (stack st)) (get_or (p_location p) empty_location)]
      \<and> stack st' = butlast (stack st)"
    by (cases rule: step_cases) (use assms in simp_all)
  ultimately show ?thesis
    using st' by blast
qed

text \<open>
  C2.  A node whose recorded opening location is \<open>(p0, x0, y0)\<close> is closed at a
  location \<open>(p1, x1, y1)\<close> (absent keys defaulting to page 1, x 0, y 0) with
  \<open>p0 \<noteq> p1\<close>: \<^const>\<open>close\<close> appends exactly two rectangles in this order, on page
  \<open>p0\<close> at \<open>(x0, y0)\<close> with height \<open>max (842 - y0 - 50) 50\<close> and on page \<open>p1\<close> at
  \<open>(x1, 50)\<close> with height \<open>max (y1 - 50) 50\<close>, and changes nothing else.  Both have the
  configured width 400 and a height of at least 50.  The pages between \<open>p0\<close> and \<open>p1\<close>
  play no part, so the number of rectangles is two however many pages lie between.
  As the object had no rectangle before (\<open>end_closes_top\<close>), these are its only two.
\<close>

theorem close_cross_page:
  assumes "start_page n = p0" and "start_x n = x0" and "start_y n = y0"
    and "get_or (loc_page end_location) 1 = p1" and "get_or (loc_x end_location) 0 = x1"
    and "get_or (loc_y end_location) 0 = y1"
    and "p0 \<noteq> p1"
  shows "close n end_location =
           n\<lparr>rects := rects n @
              [Rect p0 x0 y0 DEFAULT_RECT_WIDTH (max (842 - y0 - 50) 50),
               Rect p1 x1 50 DEFAULT_RECT_WIDTH (max (y1 - 50) 50)]\<rparr>
         \<and> DEFAULT_RECT_WIDTH = 400
         \<and> 50 \<le> max (842 - y0 - 50) 50 \<and> 50 \<le> max (y1 - 50) 50"
  using assms by (simp add: close_def Let_def DEFAULT_RECT_WIDTH_def A4_HEIGHT_PT_def)

text \<open>Scenario 2 of the specification, with two pages in between.\<close>

theorem close_cross_page_witness:
  "start_page (set_start (new_node (JStr ''marker'') ''p1'' 0 [] False)
      \<lparr>loc_page = Some 1, loc_x = Some 0, loc_y = Some 800\<rparr>) = 1
   \<and> get_or (loc_page \<lparr>loc_page = Some 4, loc_x = Some 30, loc_y = Some 100\<rparr>) 1 = 4
   \<and> (1 :: int) \<noteq> 4
   \<and> rects (close (set_start (new_node (JStr ''marker'') ''p1'' 0 [] False)
        \<lparr>loc_page = Some 1, loc_x = Some 0, loc_y = Some 800\<rparr>)
        \<lparr>loc_page = Some 4, loc_x = Some 30, loc_y = Some 100\<rparr>)
      = [Rect 1 0 800 400 50, Rect 4 30 50 400 50]"
  using close_cross_page [of "set_start (new_node (JStr ''marker'') ''p1'' 0 [] False)
        \<lparr>loc_page = Some 1, loc_x = Some 0, loc_y = Some 800\<rparr>" 1 0 800
        "\<lparr>loc_page = Some 4, loc_x = Some 30, loc_y = Some 100\<rparr>" 4 30 100]
  by (simp add: set_start_def new_node_def get_or_def)

text \<open>
  C3.  A node whose recorded opening location is \<open>(p0, x0, y0)\<close> is closed at a
  location \<open>(p1, x1, y1)\<close> (absent keys defaulting to page 1, x 0, y 0) with \<open>p0 = p1\<close>:
  \<^const>\<open>close\<close> appends exactly one rectangle, on page \<open>p0\<close> at \<open>(x0, y0)\<close>, of
  the configured width 400 and of height \<open>max (y1 - y0) 15\<close>, and changes nothing else.
  The height is at least 15 whatever \<open>y1\<close> is, also for \<open>y1 = y0\<close> and \<open>y1 < y0\<close>.
  As the object had no rectangle before (\<open>end_closes_top\<close>), the appended rectangle
  is its only one.
\<close>

theorem close_same_page:
  assumes "start_page n = p0" and "start_x n = x0" and "start_y n = y0"
    and "get_or (loc_page end_location) 1 = p1" and "get_or (loc_y end_location) 0 = y1"
    and "p0 = p1"
  shows "close n end_location =
           n\<lparr>rects := rects n @ [Rect p0 x0 y0 DEFAULT_RECT_WIDTH (max (y1 - y0) 15)]\<rparr>
         \<and> DEFAULT_RECT_WIDTH = 400 \<and> 15 \<le> max (y1 - y0) 15"
  using assms by (simp add: close_def Let_def DEFAULT_RECT_WIDTH_def)

text \<open>Scenario 1 of the specification (height 40), and an inverted pair (height 15).\<close>

theorem close_same_page_witness:
  "start_page (set_start (new_node (JStr ''marker'') ''p1'' 0 [] False)
      \<lparr>loc_page = Some 1, loc_x = Some 0, loc_y = Some 100\<rparr>) = 1
   \<and> get_or (loc_page \<lparr>loc_page = Some 1, loc_x = Some 0, loc_y = Some 140\<rparr>) 1 = 1
   \<and> rects (close (set_start (new_node (JStr ''marker'') ''p1'' 0 [] False)
        \<lparr>loc_page = Some 1, loc_x = Some 0, loc_y = Some 100\<rparr>)
        \<lparr>loc_page = Some 1, loc_x = Some 0, loc_y = Some 140\<rparr>) = [Rect 1 0 100 400 40]
   \<and> rects (close (set_start (new_node (JStr ''marker'') ''p1'' 0 [] False)
        \<lparr>loc_page = Some 1, loc_x = Some 0, loc_y = Some 100\<rparr>)
        \<lparr>loc_page = Some 1, loc_x = Some 0, loc_y = Some 20\<rparr>) = [Rect 1 0 100 400 15]"
  using close_same_page [of "set_start (new_node (JStr ''marker'') ''p1'' 0 [] False)
        \<lparr>loc_page = Some 1, loc_x = Some 0, loc_y = Some 100\<rparr>" 1 0 100
        "\<lparr>loc_page = Some 1, loc_x = Some 0, loc_y = Some 140\<rparr>" 1 140]
    close_same_page [of "set_start (new_node (JStr ''marker'') ''p1'' 0 [] False)
        \<lparr>loc_page = Some 1, loc_x = Some 0, loc_y = Some 100\<rparr>" 1 0 100
        "\<lparr>loc_page = Some 1, loc_x = Some 0, loc_y = Some 20\<rparr>" 1 20]
  by (simp add: set_start_def new_node_def get_or_def)

section \<open>Identity of a paired node (C4)\<close>

text \<open>
  A \<^verbatim>\<open>start\<close> probe allocates one object and pushes it; its identifier is
  \<^verbatim>\<open>probe_id.replace("-start", "")\<close>.  Where \<^verbatim>\<open>-start\<close> occurs in the probe's
  identifier as the trailing suffix only, that is the identifier without the suffix;
  where it does not occur at all, the identifier is unchanged.
\<close>

lemma start_node_id_trailing_suffix:
  assumes "run_probes init_state ps = Inr st" and "edge_of p = JStr ''start''"
  shows "\<exists>st'. step st p = Inr st'
           \<and> length (heap st') = Suc (length (heap st))
           \<and> stack st' = stack st @ [length (heap st)]
           \<and> node_id (heap st' ! length (heap st)) =
               str_replace (get_or (p_id p) ''unknown'') ''-start'' []
           \<and> (\<forall>s. get_or (p_id p) ''unknown'' = s @ ''-start'' \<and> \<not> occurs_in ''-start'' s
                 \<longrightarrow> node_id (heap st' ! length (heap st)) = s)
           \<and> (\<not> occurs_in ''-start'' (get_or (p_id p) ''unknown'')
                 \<longrightarrow> node_id (heap st' ! length (heap st)) = get_or (p_id p) ''unknown'')"
proof -
  have wf: "wf_state st"
    using wf_run [OF wf_init assms(1)] .
  then obtain st' where st': "step st p = Inr st'"
    using step_total [of st p] wfD_shape(1) by blast
  have top: "last (stack st) < length (heap st)"
    using wf by (rule wf_top)
  have node: "node_id (heap st' ! length (heap st)) =
      str_replace (get_or (p_id p) ''unknown'') ''-start'' []"
    using step_start_node [OF st' assms(2) top, THEN conjunct1] by simp
  have len: "length (heap st') = Suc (length (heap st))"
    and stk: "stack st' = stack st @ [length (heap st)]"
    using step_start_node [OF st' assms(2) top] by blast+
  have "node_id (heap st' ! length (heap st)) = s"
    if "get_or (p_id p) ''unknown'' = s @ ''-start''" and "\<not> occurs_in ''-start'' s" for s
    using that node by (simp add: str_replace_trailing_only)
  moreover have "node_id (heap st' ! length (heap st)) = get_or (p_id p) ''unknown''"
    if "\<not> occurs_in ''-start'' (get_or (p_id p) ''unknown'')"
    using that node by (simp add: str_replace_no_occurrence)
  ultimately show ?thesis
    using st' len stk node by blast
qed

text \<open>
  C4.  The claim has the node's identifier equal to the probe's identifier with a
  trailing \<^verbatim>\<open>-start\<close> removed and every other occurrence of \<^verbatim>\<open>-start\<close> kept
  (\<^const>\<open>remove_suffix\<close>).  \<^verbatim>\<open>str.replace\<close> removes every occurrence: the
  \<^verbatim>\<open>start\<close> probe with the identifier \<^verbatim>\<open>sec-starter-start\<close> yields the node
  \<^verbatim>\<open>secer\<close>, where the claim has \<^verbatim>\<open>sec-starter\<close>.
\<close>

theorem start_id_interior_occurrence:
  "build_shadow_dom
     [\<lparr>p_id = Some ''sec-starter-start'', p_payload = Some [(''edge'', JStr ''start'')],
       p_location = None, p_seq = Some 0, p_kind = None, p_edge = None\<rparr>]
   = Inr (Tree
       \<lparr>kind = JStr ''DOCUMENT'', node_id = ''ROOT'', seq_start = 0, children = [1], rects = [],
        payload = [(''pages'', JInt 0)], is_atomic = False,
        start_page = 1, start_x = 0, start_y = 0\<rparr>
       [Tree
         \<lparr>kind = JStr ''marker'', node_id = ''secer'', seq_start = 0, children = [],
          rects = [], payload = [(''edge'', JStr ''start'')], is_atomic = False,
          start_page = 1, start_x = 0, start_y = 0\<rparr>
         []])
   \<and> remove_suffix ''sec-starter-start'' ''-start'' = ''sec-starter''
   \<and> ''secer'' \<noteq> ''sec-starter''"
  by (simp add: build_shadow_dom_def init_state_def step_def Let_def get_or_def dict_get_def
      new_node_def set_start_def add_child_def set_pages_def tree_of.simps remove_suffix_def
      empty_location_def)

section \<open>Atomic probes (C5)\<close>

text \<open>
  C5, as the claim states it, has the marker rectangle centred at the probe's location.
  The rectangle that \<^verbatim>\<open>add_atomic_rect\<close> makes has the location as its \<open>x\<close> and \<open>y\<close>,
  which is its top-left corner: for a probe at \<open>(100, 200)\<close> the rectangle spans 100 to
  110 and 200 to 210, and its centre is \<open>(105, 205)\<close>.
\<close>

theorem atomic_rect_not_centered:
  "build_shadow_dom
     [\<lparr>p_id = Some ''m1'', p_payload = None,
       p_location = Some \<lparr>loc_page = Some 1, loc_x = Some 100, loc_y = Some 200\<rparr>,
       p_seq = Some 0, p_kind = None, p_edge = None\<rparr>]
   = Inr (Tree
       \<lparr>kind = JStr ''DOCUMENT'', node_id = ''ROOT'', seq_start = 0, children = [1], rects = [],
        payload = [(''pages'', JInt 1)], is_atomic = False,
        start_page = 1, start_x = 0, start_y = 0\<rparr>
       [Tree
         \<lparr>kind = JStr ''marker'', node_id = ''m1'', seq_start = 0, children = [],
          rects = [Rect 1 100 200 10 10], payload = [], is_atomic = True,
          start_page = 1, start_x = 0, start_y = 0\<rparr>
         []])
   \<and> rect_center (Rect 1 100 200 10 10) = (105, 205)
   \<and> rect_center (Rect 1 100 200 10 10) \<noteq> (100, 200)"
  by (simp add: build_shadow_dom_def init_state_def step_def Let_def get_or_def dict_get_def
      new_node_def add_atomic_rect_def add_child_def set_pages_def tree_of.simps rect_center_def)

text \<open>
  C5, amended.  In every state that the loop reaches, a probe without pairing marker
  raises nothing and allocates exactly one object: it is atomic, carries the probe's
  identifier unchanged (\<^verbatim>\<open>unknown\<close> if the probe has none), has no children and
  exactly one rectangle, of width 10 and height 10, whose top-left corner \<open>(x, y)\<close> is
  the probe's location (absent keys defaulting to page 1, x 0, y 0).  Its address is
  appended to the children of the node on top of the stack; the stack is unchanged, and
  whatever probes follow, the new object is never on the stack.
\<close>

theorem atomic_probe_node:
  assumes "run_probes init_state ps = Inr st"
    and "map_of (get_or (p_payload p) []) ''edge'' = None"
  shows "\<exists>st'. step st p = Inr st'
           \<and> length (heap st') = Suc (length (heap st))
           \<and> heap st' ! length (heap st) =
               \<lparr>kind = dict_get (get_or (p_payload p) []) ''kind'' (get_or (p_kind p) (JStr ''marker'')),
                node_id = get_or (p_id p) ''unknown'', seq_start = get_or (p_seq p) 0,
                children = [],
                rects = [Rect (get_or (loc_page (get_or (p_location p) empty_location)) 1)
                              (get_or (loc_x (get_or (p_location p) empty_location)) 0)
                              (get_or (loc_y (get_or (p_location p) empty_location)) 0) 10 10],
                payload = get_or (p_payload p) [], is_atomic = True,
                start_page = 1, start_x = 0, start_y = 0\<rparr>
           \<and> children (heap st' ! last (stack st)) =
               children (heap st ! last (stack st)) @ [length (heap st)]
           \<and> stack st' = stack st
           \<and> (\<forall>qs st''. run_probes st' qs = Inr st'' \<longrightarrow> length (heap st) \<notin> set (stack st''))"
proof -
  have wf: "wf_state st"
    using wf_run [OF wf_init assms(1)] .
  then obtain st' where st': "step st p = Inr st'"
    using step_total [of st p] wfD_shape(1) by blast
  have top: "last (stack st) < length (heap st)"
    using wf by (rule wf_top)
  have e: "edge_of p \<noteq> JStr ''start''" "edge_of p \<noteq> JStr ''end''"
    using assms(2) by (simp_all add: edge_of_def dict_get_def)
  note facts = step_atomic_node [OF st' e top, THEN conjunct1]
    step_atomic_node [OF st' e top, THEN conjunct2, THEN conjunct1]
    step_atomic_node [OF st' e top, THEN conjunct2, THEN conjunct2, THEN conjunct1]
    step_atomic_node [OF st' e top, THEN conjunct2, THEN conjunct2, THEN conjunct2]
  have "length (heap st) \<notin> set (stack st'')" if run: "run_probes st' qs = Inr st''" for qs st''
  proof
    assume "length (heap st) \<in> set (stack st'')"
    then have "length (heap st) \<in> set (stack st') \<or> length (heap st') \<le> length (heap st)"
      by (rule run_stack_addresses [OF run])
    moreover have "length (heap st) \<notin> set (stack st)"
      using wfD_stack(1) [OF wf, of "length (heap st)"] by auto
    ultimately show False
      using facts(2) facts(4) by simp
  qed
  then show ?thesis
    using st' facts by blast
qed

text \<open>Scenario 3 of the specification, followed by a \<^verbatim>\<open>start\<close> probe.\<close>

theorem atomic_probe_node_witness:
  "run_probes init_state [] = Inr init_state
   \<and> map_of (get_or (p_payload \<lparr>p_id = Some ''m1'', p_payload = None,
       p_location = Some \<lparr>loc_page = Some 1, loc_x = Some 100, loc_y = Some 200\<rparr>,
       p_seq = Some 0, p_kind = None, p_edge = None\<rparr>) []) ''edge'' = None
   \<and> (\<exists>st' st''. step init_state \<lparr>p_id = Some ''m1'', p_payload = None,
       p_location = Some \<lparr>loc_page = Some 1, loc_x = Some 100, loc_y = Some 200\<rparr>,
       p_seq = Some 0, p_kind = None, p_edge = None\<rparr> = Inr st'
      \<and> node_id (heap st' ! 1) = ''m1'' \<and> is_atomic (heap st' ! 1)
      \<and> rects (heap st' ! 1) = [Rect 1 100 200 10 10]
      \<and> children (heap st' ! 0) = [1] \<and> stack st' = [0]
      \<and> run_probes st' [\<lparr>p_id = Some ''s-start'', p_payload = Some [(''edge'', JStr ''start'')],
           p_location = None, p_seq = Some 1, p_kind = None, p_edge = None\<rparr>] = Inr st''
      \<and> 1 \<notin> set (stack st''))"
proof -
  let ?p = "\<lparr>p_id = Some ''m1'', p_payload = None,
       p_location = Some \<lparr>loc_page = Some 1, loc_x = Some 100, loc_y = Some 200\<rparr>,
       p_seq = Some 0, p_kind = None, p_edge = None\<rparr>"
  let ?q = "\<lparr>p_id = Some ''s-start'', p_payload = Some [(''edge'', JStr ''start'')],
           p_location = None, p_seq = Some 1, p_kind = None, p_edge = None\<rparr>"
  have r: "run_probes init_state [] = Inr init_state" by simp
  have a: "map_of (get_or (p_payload ?p) []) ''edge'' = None"
    by (simp add: get_or_def)
  have h: "length (heap init_state) = 1" "stack init_state = [0]"
    "children (heap init_state ! 0) = []"
    by (simp_all add: init_state_def new_node_def)
  from atomic_probe_node [OF r a]
  obtain st' where st': "step init_state ?p = Inr st'"
    and n: "node_id (heap st' ! 1) = ''m1''" "is_atomic (heap st' ! 1)"
      "rects (heap st' ! 1) = [Rect 1 100 200 10 10]"
      "children (heap st' ! 0) = [1]" "stack st' = [0]"
    and later: "\<And>qs st''. run_probes st' qs = Inr st'' \<Longrightarrow> 1 \<notin> set (stack st'')"
    by (auto simp: h get_or_def)
  have "stack st' \<noteq> []" using n(5) by simp
  then obtain st'' where st'': "run_probes st' [?q] = Inr st''"
    using step_total [of st' ?q] by auto
  then have "1 \<notin> set (stack st'')" by (rule later)
  then show ?thesis
    using r a st' n st'' by blast
qed

section \<open>An unmatched \<^verbatim>\<open>end\<close> (C6)\<close>

text \<open>
  C6.  An \<^verbatim>\<open>end\<close> probe that arrives while the stack holds one node only (the root)
  raises nothing and leaves the store and the stack as they are: nothing is popped or
  closed, no object changes (so no rectangle list and no child list does), and the
  root's child count and the stack depth are what they were.  The one thing that the
  iteration does is what it does for every probe: the page of the probe's location, if
  it has one, is added to \<^verbatim>\<open>pages_seen\<close>.
\<close>

theorem end_on_root_ignored:
  assumes "edge_of p = JStr ''end''" and "length (stack st) = 1"
  shows "\<exists>st'. step st p = Inr st'
           \<and> heap st' = heap st \<and> stack st' = stack st
           \<and> pushes st' = pushes st \<and> pops st' = pops st
           \<and> length (children (heap st' ! 0)) = length (children (heap st ! 0))
           \<and> length (stack st') = length (stack st)
           \<and> pages_seen st' =
               (case loc_page (get_or (p_location p) empty_location) of
                  None \<Rightarrow> pages_seen st
                | Some pg \<Rightarrow> insert pg (pages_seen st))"
proof -
  have "stack st \<noteq> []" using assms(2) by auto
  then obtain st' where st': "step st p = Inr st'"
    using step_total by blast
  from st' show ?thesis
  proof (cases rule: step_cases)
    case ignore
    then show ?thesis using st' step_pages_seen [OF st'] by simp
  qed (use assms in simp_all)
qed

text \<open>Scenario 4 of the specification: an \<^verbatim>\<open>end\<close> as the first probe.\<close>

theorem end_on_root_ignored_witness:
  "edge_of \<lparr>p_id = Some ''p1-end'', p_payload = Some [(''edge'', JStr ''end'')],
        p_location = Some \<lparr>loc_page = Some 3, loc_x = Some 0, loc_y = Some 140\<rparr>,
        p_seq = Some 0, p_kind = None, p_edge = None\<rparr> = JStr ''end''
   \<and> length (stack init_state) = 1
   \<and> (\<exists>st'. step init_state
        \<lparr>p_id = Some ''p1-end'', p_payload = Some [(''edge'', JStr ''end'')],
          p_location = Some \<lparr>loc_page = Some 3, loc_x = Some 0, loc_y = Some 140\<rparr>,
          p_seq = Some 0, p_kind = None, p_edge = None\<rparr> = Inr st'
        \<and> heap st' = heap init_state \<and> stack st' = [0])"
proof -
  have e: "edge_of \<lparr>p_id = Some ''p1-end'', p_payload = Some [(''edge'', JStr ''end'')],
        p_location = Some \<lparr>loc_page = Some 3, loc_x = Some 0, loc_y = Some 140\<rparr>,
        p_seq = Some 0, p_kind = None, p_edge = None\<rparr> = JStr ''end''"
    by (simp add: edge_of_def dict_get_def get_or_def)
  have l: "length (stack init_state) = 1"
    by (simp add: init_state_def)
  have s: "stack init_state = [0]"
    by (simp add: init_state_def)
  show ?thesis
    using e l end_on_root_ignored [OF e l] by (auto simp: s)
qed

section \<open>Fragment collection (C7)\<close>

lemma fold_append_rects:
  "fold (\<lambda>rect res. res @ [f rect]) rs results = results @ map f rs"
  by (induction rs arbitrary: results) simp_all

lemma fold_children_concat:
  assumes "\<And>c res. c \<in> set cs \<Longrightarrow> g c res = res @ f c"
  shows "fold g cs results = results @ concat (map f cs)"
  using assms by (induction cs arbitrary: results) simp_all

lemma collect_all_rects_append:
  "collect_all_rects t results = results @ preorder_triples t"
proof (induction t arbitrary: results)
  case (Tree node cs)
  have "fold (\<lambda>child res. collect_all_rects child res) cs acc = acc @ concat (map preorder_triples cs)"
    for acc
    by (rule fold_children_concat) (simp add: Tree.IH)
  then show ?case
    by (simp add: fold_append_rects)
qed

lemma length_preorder_triples: "length (preorder_triples t) = rect_total t"
proof (induction t)
  case (Tree node cs)
  have "sum_list (map (length \<circ> preorder_triples) cs) = sum_list (map rect_total cs)"
    by (rule arg_cong [where f = sum_list]) (simp add: Tree.IH)
  then show ?case
    by (simp add: length_concat)
qed

text \<open>
  C7.  For every tree and every list \<open>results\<close>, \<^const>\<open>collect_all_rects\<close> appends to
  \<open>results\<close> the triples of the tree in pre-order (\<^const>\<open>preorder_triples\<close>: a node's
  own rectangles in stored order, then its children's triples, children in stored
  order).  Started on the empty list it returns exactly these triples, their number is
  the sum of the rectangle counts of all nodes, and a root without rectangles and
  without children yields the empty list.  The function returns the list only: the tree
  is read, never written.
\<close>

theorem collect_all_rects_preorder:
  "collect_all_rects t results = results @ preorder_triples t
   \<and> collect_all_rects t [] = preorder_triples t
   \<and> length (collect_all_rects t []) = rect_total t
   \<and> collect_all_rects (Tree (node\<lparr>rects := []\<rparr>) []) [] = []"
  by (simp add: collect_all_rects_append length_preorder_triples)

section \<open>Nodes stay in the tree (C8)\<close>

lemma run_stays_open:
  assumes "stays_open d qs" and "run_probes st qs = Inr st'"
    and "stack st = base @ ext" and "length ext = d" and "base \<noteq> []"
  shows "\<exists>ext'. stack st' = base @ ext'"
  using assms
proof (induction qs arbitrary: st d ext)
  case Nil
  then show ?case by simp
next
  case (Cons q qs)
  then obtain st1 where st1: "step st q = Inr st1" "run_probes st1 qs = Inr st'"
    by (auto split: sum.splits)
  from st1(1) show ?case
  proof (cases rule: step_cases)
    case (start n)
    have "stays_open (Suc d) qs" using Cons.prems(1) start(1) by simp
    moreover have "stack st1 = base @ (ext @ [length (heap st)])"
      unfolding start(4) Cons.prems(3) by simp
    moreover have "length (ext @ [length (heap st)]) = Suc d"
      using Cons.prems(4) by simp
    ultimately show ?thesis
      using Cons.IH st1(2) Cons.prems(5) by blast
  next
    case pop
    have d: "0 < d" "stays_open (d - 1) qs" using Cons.prems(1) pop(1) by simp_all
    then have ne: "ext \<noteq> []" using Cons.prems(4) by auto
    have "stack st1 = base @ butlast ext"
      unfolding pop(4) Cons.prems(3) using ne by (simp add: butlast_append)
    moreover have "length (butlast ext) = d - 1"
      using Cons.prems(4) by simp
    ultimately show ?thesis
      using Cons.IH d(2) st1(2) Cons.prems(5) by blast
  next
    case ignore
    have "stays_open (d - 1) qs" "0 < d" using Cons.prems(1) ignore(1) by simp_all
    then show ?thesis
      using ignore(2) Cons.prems(3,4,5) by (cases base; cases ext) simp_all
  next
    case (atomic n)
    have "stays_open d qs" using Cons.prems(1) atomic(1,2) by simp
    moreover have "stack st1 = base @ ext"
      unfolding atomic(5) Cons.prems(3) by simp
    ultimately show ?thesis
      using Cons.IH st1(2) Cons.prems(4,5) by blast
  qed
qed

text \<open>
  C8.  Let \<open>st\<close> be the state after the loop has processed \<open>ps\<close>.  Then
  \<^verbatim>\<open>build_shadow_dom\<close> returns a tree \<open>t\<close>, and every object allocated so far is
  reachable from the root along \<open>children\<close> references and is a node of \<open>t\<close>, with all
  the children that its object holds.  As \<open>ps\<close> is arbitrary, this holds after every
  prefix of a probe sequence: a node is in the tree from the iteration that creates it.

  In particular, let \<open>p\<close> be a \<^verbatim>\<open>start\<close> probe of \<open>ps\<close> that does not meet its
  \<^verbatim>\<open>end\<close> in the probes \<open>ps2\<close> after it (\<^const>\<open>stays_open\<close>).  Its node, allocated
  at the first free address \<open>length (heap st1)\<close> of the state \<open>st1\<close> before \<open>p\<close>, is
  still on the stack at the end, carries the identifier and sequence number taken from
  \<open>p\<close>, and has no rectangle in the returned tree.
\<close>

theorem created_nodes_stay_in_tree:
  assumes "run_probes init_state ps = Inr st"
  shows "\<exists>t. build_shadow_dom ps = Inr t
           \<and> (\<forall>a<length (heap st).
                 reachable (heap st) 0 a
                 \<and> tree_of (set_pages st) a \<in> set (nodes t)
                 \<and> subtrees (tree_of (set_pages st) a) =
                     map (tree_of (set_pages st)) (children (heap st ! a)))
           \<and> (\<forall>ps1 p ps2 st1.
                 ps = ps1 @ p # ps2 \<and> run_probes init_state ps1 = Inr st1
                 \<and> edge_of p = JStr ''start'' \<and> stays_open 0 ps2
                 \<longrightarrow> length (heap st1) < length (heap st)
                     \<and> length (heap st1) \<in> set (stack st)
                     \<and> node_id (heap st ! length (heap st1)) =
                         str_replace (get_or (p_id p) ''unknown'') ''-start'' []
                     \<and> seq_start (heap st ! length (heap st1)) = get_or (p_seq p) 0
                     \<and> rects (obj (tree_of (set_pages st) (length (heap st1)))) = [])"
proof -
  let ?h = "set_pages st"
  have wf: "wf_state st"
    using wf_run [OF wf_init assms] .
  have t: "build_shadow_dom ps = Inr (tree_of ?h 0)"
    using assms by (simp add: build_shadow_dom_def)
  have fwd: "\<forall>a<length ?h. \<forall>c\<in>set (children (?h ! a)). a < c \<and> c < length ?h"
    using wf unfolding length_set_pages children_set_pages wf_state_def by blast
  have par: "\<forall>c<length ?h. 0 < c \<longrightarrow> (\<exists>a<c. c \<in> set (children (?h ! a)))"
    using wf unfolding length_set_pages children_set_pages wf_state_def by blast
  have par0: "\<forall>c<length (heap st). 0 < c \<longrightarrow> (\<exists>a<c. c \<in> set (children (heap st ! a)))"
    using wf unfolding wf_state_def by blast
  have obj_rects: "rects (obj (tree_of ?h a)) = rects (heap st ! a)" for a
    by (subst tree_of.simps) (simp add: rects_set_pages)
  have general: "reachable (heap st) 0 a \<and> tree_of ?h a \<in> set (nodes (tree_of ?h 0))
      \<and> subtrees (tree_of ?h a) = map (tree_of ?h) (children (heap st ! a))"
    if a: "a < length (heap st)" for a
  proof (intro conjI)
    show "reachable (heap st) 0 a"
      using par0 a by (rule all_reachable)
    have "reachable ?h 0 a"
      using par a by (intro all_reachable) (simp_all add: length_set_pages)
    with fwd show "tree_of ?h a \<in> set (nodes (tree_of ?h 0))"
      by (rule reachable_in_tree)
    have "\<forall>c\<in>set (children (?h ! a)). a < c \<and> c < length ?h"
      using fwd a unfolding length_set_pages by blast
    then have "tree_of ?h a = Tree (?h ! a) (map (tree_of ?h) (children (?h ! a)))"
      by (rule tree_of_children)
    then show "subtrees (tree_of ?h a) = map (tree_of ?h) (children (heap st ! a))"
      by (simp add: children_set_pages)
  qed
  have unclosed: "length (heap st1) < length (heap st)
      \<and> length (heap st1) \<in> set (stack st)
      \<and> node_id (heap st ! length (heap st1)) = str_replace (get_or (p_id p) ''unknown'') ''-start'' []
      \<and> seq_start (heap st ! length (heap st1)) = get_or (p_seq p) 0
      \<and> rects (obj (tree_of ?h (length (heap st1)))) = []"
    if split: "ps = ps1 @ p # ps2" and st1: "run_probes init_state ps1 = Inr st1"
      and edge: "edge_of p = JStr ''start''" and "open": "stays_open 0 ps2"
    for ps1 p ps2 st1
  proof -
    let ?a = "length (heap st1)"
    have wf1: "wf_state st1"
      using wf_run [OF wf_init st1] .
    have rest: "run_probes st1 (p # ps2) = Inr st"
      using assms st1 unfolding split run_append by simp
    then obtain st2 where st2: "step st1 p = Inr st2" "run_probes st2 ps2 = Inr st"
      by (auto split: sum.splits)
    have wf2: "wf_state st2"
      using wf1 st2(1) by (rule wf_step)
    note new = step_start_node [OF st2(1) edge wf_top [OF wf1]]
    have len2: "length (heap st2) = Suc ?a" and stk2: "stack st2 = stack st1 @ [?a]"
      using new by blast+
    have id2: "node_id (heap st2 ! ?a) = str_replace (get_or (p_id p) ''unknown'') ''-start'' []"
      "seq_start (heap st2 ! ?a) = get_or (p_seq p) 0"
      using new [THEN conjunct1] by simp_all
    have "\<exists>ext'. stack st = (stack st1 @ [?a]) @ ext'"
      using "open" st2(2) by (rule run_stays_open) (simp_all add: stk2)
    then have on_stack: "?a \<in> set (stack st)" by auto
    have lt: "?a < length (heap st)"
      using wf on_stack by (rule wfD_stack)
    have "rects (heap st ! ?a) = []"
      using wf on_stack by (rule wfD_stack)
    moreover have "node_id (heap st ! ?a) = node_id (heap st2 ! ?a)
        \<and> seq_start (heap st ! ?a) = seq_start (heap st2 ! ?a)"
      using run_keeps_identity [OF wf2 st2(2), of ?a] by (simp add: len2)
    ultimately show ?thesis
      using lt on_stack id2 by (simp add: obj_rects)
  qed
  show ?thesis
    using t general unclosed by blast
qed

text \<open>A \<^verbatim>\<open>start\<close> that is never closed, with an atomic probe inside.\<close>

theorem created_nodes_stay_in_tree_witness:
  "\<exists>st t.
     run_probes init_state
       [\<lparr>p_id = Some ''sec-start'', p_payload = Some [(''edge'', JStr ''start'')],
          p_location = Some \<lparr>loc_page = Some 1, loc_x = Some 0, loc_y = Some 100\<rparr>,
          p_seq = Some 0, p_kind = None, p_edge = None\<rparr>,
        \<lparr>p_id = Some ''m'', p_payload = None, p_location = None,
          p_seq = Some 1, p_kind = None, p_edge = None\<rparr>] = Inr st
     \<and> run_probes init_state [] = Inr init_state
     \<and> edge_of \<lparr>p_id = Some ''sec-start'', p_payload = Some [(''edge'', JStr ''start'')],
          p_location = Some \<lparr>loc_page = Some 1, loc_x = Some 0, loc_y = Some 100\<rparr>,
          p_seq = Some 0, p_kind = None, p_edge = None\<rparr> = JStr ''start''
     \<and> stays_open 0 [\<lparr>p_id = Some ''m'', p_payload = None, p_location = None,
          p_seq = Some 1, p_kind = None, p_edge = None\<rparr>]
     \<and> build_shadow_dom
       [\<lparr>p_id = Some ''sec-start'', p_payload = Some [(''edge'', JStr ''start'')],
          p_location = Some \<lparr>loc_page = Some 1, loc_x = Some 0, loc_y = Some 100\<rparr>,
          p_seq = Some 0, p_kind = None, p_edge = None\<rparr>,
        \<lparr>p_id = Some ''m'', p_payload = None, p_location = None,
          p_seq = Some 1, p_kind = None, p_edge = None\<rparr>] = Inr t
     \<and> length (heap st) = 3
     \<and> reachable (heap st) 0 2
     \<and> tree_of (set_pages st) 1 \<in> set (nodes t)
     \<and> subtrees (tree_of (set_pages st) 1) = [tree_of (set_pages st) 2]
     \<and> 1 \<in> set (stack st)
     \<and> node_id (heap st ! 1) = ''sec''
     \<and> rects (obj (tree_of (set_pages st) 1)) = []"
proof -
  let ?p = "\<lparr>p_id = Some ''sec-start'', p_payload = Some [(''edge'', JStr ''start'')],
          p_location = Some \<lparr>loc_page = Some 1, loc_x = Some 0, loc_y = Some 100\<rparr>,
          p_seq = Some 0, p_kind = None, p_edge = None\<rparr>"
  let ?m = "\<lparr>p_id = Some ''m'', p_payload = None, p_location = None,
          p_seq = Some 1, p_kind = None, p_edge = None\<rparr>"
  have "\<exists>st. run_probes init_state [?p, ?m] = Inr st \<and> length (heap st) = 3
      \<and> children (heap st ! 1) = [2]"
    by (simp add: init_state_def step_def Let_def get_or_def dict_get_def new_node_def
        set_start_def add_atomic_rect_def add_child_def empty_location_def)
  then obtain st where run: "run_probes init_state [?p, ?m] = Inr st"
    and len: "length (heap st) = 3" and ch: "children (heap st ! 1) = [2]"
    by blast
  have r0: "run_probes init_state [] = Inr init_state" by simp
  have e: "edge_of ?p = JStr ''start''"
    by (simp add: edge_of_def dict_get_def get_or_def)
  have so: "stays_open 0 [?m]"
    by (simp add: edge_of_def dict_get_def get_or_def)
  have h0: "length (heap init_state) = 1"
    by (simp add: init_state_def)
  have id: "str_replace (get_or (p_id ?p) ''unknown'') ''-start'' [] = ''sec''"
    by (simp add: get_or_def)
  from created_nodes_stay_in_tree [OF run]
  obtain t where t: "build_shadow_dom [?p, ?m] = Inr t"
    and all: "\<And>a. a < length (heap st) \<Longrightarrow> reachable (heap st) 0 a
        \<and> tree_of (set_pages st) a \<in> set (nodes t)
        \<and> subtrees (tree_of (set_pages st) a) =
            map (tree_of (set_pages st)) (children (heap st ! a))"
    and unclosed: "\<And>ps1 p ps2 st1.
        [?p, ?m] = ps1 @ p # ps2 \<and> run_probes init_state ps1 = Inr st1
        \<and> edge_of p = JStr ''start'' \<and> stays_open 0 ps2
        \<Longrightarrow> length (heap st1) \<in> set (stack st)
            \<and> node_id (heap st ! length (heap st1)) =
                str_replace (get_or (p_id p) ''unknown'') ''-start'' []
            \<and> rects (obj (tree_of (set_pages st) (length (heap st1)))) = []"
    by blast
  have u: "1 \<in> set (stack st) \<and> node_id (heap st ! 1) = ''sec''
      \<and> rects (obj (tree_of (set_pages st) 1)) = []"
    using unclosed [of "[]" ?p "[?m]" init_state] r0 e so unfolding h0 id by simp
  have a1: "tree_of (set_pages st) 1 \<in> set (nodes t)
      \<and> subtrees (tree_of (set_pages st) 1) = [tree_of (set_pages st) 2]"
    using all [of 1] len ch by simp
  have a2: "reachable (heap st) 0 2"
    using all [of 2] len by simp
  show ?thesis
    using run r0 e so t len a1 a2 u by blast
qed

section \<open>Empty input (C9)\<close>

text \<open>
  C9.  On the empty probe sequence \<^verbatim>\<open>build_shadow_dom\<close> returns the root of kind
  \<^verbatim>\<open>DOCUMENT\<close> and identifier \<^verbatim>\<open>ROOT\<close>, without children, whose payload records 0
  pages.  Both renderers accept it: \<^verbatim>\<open>export_html\<close> emits the opening chunk (with 0
  rectangles and 0 pages in the legend) and the closing chunk with no page panel in
  between, and \<^verbatim>\<open>print_tree\<close> prints the root line and nothing else.
\<close>

theorem empty_input:
  "build_shadow_dom [] =
     Inr (Tree \<lparr>kind = JStr ''DOCUMENT'', node_id = ''ROOT'', seq_start = 0, children = [],
                rects = [], payload = [(''pages'', JInt 0)], is_atomic = False,
                start_page = 1, start_x = 0, start_y = 0\<rparr> [])
   \<and> export_html
       (Tree \<lparr>kind = JStr ''DOCUMENT'', node_id = ''ROOT'', seq_start = 0, children = [],
                rects = [], payload = [(''pages'', JInt 0)], is_atomic = False,
                start_page = 1, start_x = 0, start_y = 0\<rparr> [])
     = [HtmlHead 0 (JInt 0), HtmlTail]
   \<and> print_tree
       (Tree \<lparr>kind = JStr ''DOCUMENT'', node_id = ''ROOT'', seq_start = 0, children = [],
                rects = [], payload = [(''pages'', JInt 0)], is_atomic = False,
                start_page = 1, start_x = 0, start_y = 0\<rparr> [])
     = [RootLine (JInt 0)]"
  by (simp add: build_shadow_dom_def init_state_def new_node_def set_pages_def tree_of.simps
      export_html_def group_by_page_def print_tree_def dict_get_def)

section \<open>Unrecognised pairing markers (C10)\<close>

text \<open>
  C10.  The pairing marker is \<^verbatim>\<open>payload.get("edge")\<close> and nothing else.  In every
  state that the loop reaches, a probe whose marker is neither the string \<^verbatim>\<open>start\<close>
  nor the string \<^verbatim>\<open>end\<close> (absent, \<^verbatim>\<open>null\<close>, another string, a number or any other
  value) raises nothing and takes the atomic branch: one object is allocated, it is
  atomic and has the one marker rectangle of width and height 10 at the probe's
  location, and the stack and the push and pop counts are unchanged.  A top-level
  \<^verbatim>\<open>edge\<close> field of the probe, whatever its value \<open>e\<close>, makes no difference to the
  outcome.
\<close>

theorem unrecognised_edge_is_atomic:
  assumes "run_probes init_state ps = Inr st"
    and "edge_of p \<noteq> JStr ''start''" and "edge_of p \<noteq> JStr ''end''"
  shows "\<exists>st'. step st p = Inr st'
           \<and> length (heap st') = Suc (length (heap st))
           \<and> is_atomic (heap st' ! length (heap st))
           \<and> rects (heap st' ! length (heap st)) =
               [Rect (get_or (loc_page (get_or (p_location p) empty_location)) 1)
                     (get_or (loc_x (get_or (p_location p) empty_location)) 0)
                     (get_or (loc_y (get_or (p_location p) empty_location)) 0) 10 10]
           \<and> stack st' = stack st \<and> pushes st' = pushes st \<and> pops st' = pops st
           \<and> step st (p\<lparr>p_edge := e\<rparr>) = Inr st'"
proof -
  have wf: "wf_state st"
    using wf_run [OF wf_init assms(1)] .
  then obtain st' where st': "step st p = Inr st'"
    using step_total [of st p] wfD_shape(1) by blast
  have top: "last (stack st) < length (heap st)"
    using wf by (rule wf_top)
  from st' show ?thesis
  proof (cases rule: step_cases)
    case (atomic n)
    have "heap st' ! length (heap st) = n"
      unfolding atomic(4) using top by (simp add: alloc_nth)
    moreover have "is_atomic n" and "rects n =
               [Rect (get_or (loc_page (get_or (p_location p) empty_location)) 1)
                     (get_or (loc_x (get_or (p_location p) empty_location)) 0)
                     (get_or (loc_y (get_or (p_location p) empty_location)) 0) 10 10]"
      unfolding atomic(3) by (simp_all add: add_atomic_rect_def new_node_def)
    ultimately show ?thesis
      using st' atomic by (simp add: step_ignores_top_level_edge)
  qed (use assms in simp_all)
qed

text \<open>A probe whose payload marker is the number 7 and whose top-level \<^verbatim>\<open>edge\<close> is
  \<^verbatim>\<open>start\<close>.\<close>

theorem unrecognised_edge_is_atomic_witness:
  "run_probes init_state [] = Inr init_state
   \<and> edge_of \<lparr>p_id = Some ''x'', p_payload = Some [(''edge'', JInt 7)],
        p_location = Some \<lparr>loc_page = Some 2, loc_x = Some 30, loc_y = Some 40\<rparr>,
        p_seq = Some 0, p_kind = None, p_edge = None\<rparr> \<noteq> JStr ''start''
   \<and> edge_of \<lparr>p_id = Some ''x'', p_payload = Some [(''edge'', JInt 7)],
        p_location = Some \<lparr>loc_page = Some 2, loc_x = Some 30, loc_y = Some 40\<rparr>,
        p_seq = Some 0, p_kind = None, p_edge = None\<rparr> \<noteq> JStr ''end''
   \<and> (\<exists>st'. step init_state \<lparr>p_id = Some ''x'', p_payload = Some [(''edge'', JInt 7)],
        p_location = Some \<lparr>loc_page = Some 2, loc_x = Some 30, loc_y = Some 40\<rparr>,
        p_seq = Some 0, p_kind = None, p_edge = Some (JStr ''start'')\<rparr> = Inr st'
      \<and> is_atomic (heap st' ! 1) \<and> rects (heap st' ! 1) = [Rect 2 30 40 10 10]
      \<and> stack st' = [0])"
proof -
  let ?p = "\<lparr>p_id = Some ''x'', p_payload = Some [(''edge'', JInt 7)],
        p_location = Some \<lparr>loc_page = Some 2, loc_x = Some 30, loc_y = Some 40\<rparr>,
        p_seq = Some 0, p_kind = None, p_edge = None\<rparr>"
  have r: "run_probes init_state [] = Inr init_state" by simp
  have e1: "edge_of ?p \<noteq> JStr ''start''" and e2: "edge_of ?p \<noteq> JStr ''end''"
    by (simp_all add: edge_of_def dict_get_def get_or_def)
  have h: "length (heap init_state) = 1" "stack init_state = [0]"
    by (simp_all add: init_state_def)
  from unrecognised_edge_is_atomic [OF r e1 e2, of "Some (JStr ''start'')"]
  obtain st' where "step init_state (?p\<lparr>p_edge := Some (JStr ''start'')\<rparr>) = Inr st'"
    and "is_atomic (heap st' ! 1)" and "rects (heap st' ! 1) = [Rect 2 30 40 10 10]"
    and "stack st' = [0]"
    by (auto simp: h get_or_def)
  then show ?thesis
    using r e1 e2 by simp
qed

end
